theory Spec2Isabelle
  imports Complex_Main "HOL-Library.AList" "HOL-Library.Multiset" "HOL-Library.Word"
    "HOL-Library.Log_Nat"
begin

section \<open>Numbers\<close>

text \<open>
  A finite JavaScript number is the rational it denotes: pixel coordinates, counts and
  widths are integers, and \<open>scale\<close> and the fallback baseline are fractions.
  \<open>Math.round\<close> rounds to the nearest integer, a half going up. The arithmetic of the
  path transforms is the arithmetic of IEEE doubles, given below.
\<close>

definition Math_round :: "rat \<Rightarrow> int" where
  "Math_round x = \<lfloor>x + 1 / 2\<rfloor>"

definition Math_floor :: "rat \<Rightarrow> int" where
  "Math_floor x = \<lfloor>x\<rfloor>"

definition RENDER_SIZE :: rat where
  "RENDER_SIZE = 256"

definition UNITS_PER_EM :: rat where
  "UNITS_PER_EM = 256"

subsection \<open>Double arithmetic\<close>

text \<open>
  A double is a finite value, an infinity or NaN; the two zeros are not told apart
  (they compare equal, and no operation used here separates them). \<open>fl\<close> rounds a
  rational to the nearest double, a tie going to the even significand: 53 significant
  bits, the unit in the last place never below \<open>2\<^sup>-\<^sup>1\<^sup>0\<^sup>7\<^sup>4\<close>, and a rounded value of
  magnitude \<open>2\<^sup>1\<^sup>0\<^sup>2\<^sup>4\<close> or more (exponent 1024 or more) an infinity.
\<close>

datatype double = Finite rat | PlusInfinity | MinusInfinity | NotANumber

definition pow2 :: "int \<Rightarrow> rat" where
  "pow2 k = (if 0 \<le> k then 2 ^ nat k else 1 / 2 ^ nat (- k))"

text \<open>The exponent \<open>e\<close> with \<open>2\<^sup>e \<le> q < 2\<^sup>e\<^sup>+\<^sup>1\<close>, for a positive \<open>q\<close>.\<close>

definition floor_log2 :: "rat \<Rightarrow> int" where
  "floor_log2 q =
     (case quotient_of q of (n, d) \<Rightarrow>
        (let b = bitlen n - bitlen d in if pow2 b \<le> q then b else b - 1))"

definition round_half_even :: "rat \<Rightarrow> int" where
  "round_half_even q =
     (let f = \<lfloor>q\<rfloor>; r = q - of_int f
      in if r < 1 / 2 then f else if 1 / 2 < r then f + 1 else if even f then f else f + 1)"

definition fl :: "rat \<Rightarrow> double" where
  "fl q =
     (if q = 0 then Finite 0
      else (let e = floor_log2 \<bar>q\<bar>;
                k = max (e - 52) (- 1074);
                r = of_int (round_half_even (q / pow2 k)) * pow2 k
            in if r \<noteq> 0 \<and> 1024 \<le> floor_log2 \<bar>r\<bar>
               then (if 0 < r then PlusInfinity else MinusInfinity)
               else Finite r))"

fun dneg :: "double \<Rightarrow> double" where
  "dneg (Finite a) = Finite (- a)"
| "dneg PlusInfinity = MinusInfinity"
| "dneg MinusInfinity = PlusInfinity"
| "dneg NotANumber = NotANumber"

fun dadd :: "double \<Rightarrow> double \<Rightarrow> double" where
  "dadd (Finite a) (Finite b) = fl (a + b)"
| "dadd NotANumber _ = NotANumber"
| "dadd _ NotANumber = NotANumber"
| "dadd PlusInfinity MinusInfinity = NotANumber"
| "dadd MinusInfinity PlusInfinity = NotANumber"
| "dadd PlusInfinity _ = PlusInfinity"
| "dadd MinusInfinity _ = MinusInfinity"
| "dadd _ PlusInfinity = PlusInfinity"
| "dadd _ MinusInfinity = MinusInfinity"

definition dsub :: "double \<Rightarrow> double \<Rightarrow> double" where
  "dsub a b = dadd a (dneg b)"

definition signed_infinity :: "bool \<Rightarrow> double" where
  "signed_infinity positive = (if positive then PlusInfinity else MinusInfinity)"

fun dmul :: "double \<Rightarrow> double \<Rightarrow> double" where
  "dmul (Finite a) (Finite b) = fl (a * b)"
| "dmul NotANumber _ = NotANumber"
| "dmul _ NotANumber = NotANumber"
| "dmul PlusInfinity (Finite b) = (if b = 0 then NotANumber else signed_infinity (0 < b))"
| "dmul MinusInfinity (Finite b) = (if b = 0 then NotANumber else signed_infinity (b < 0))"
| "dmul (Finite a) PlusInfinity = (if a = 0 then NotANumber else signed_infinity (0 < a))"
| "dmul (Finite a) MinusInfinity = (if a = 0 then NotANumber else signed_infinity (a < 0))"
| "dmul PlusInfinity PlusInfinity = PlusInfinity"
| "dmul PlusInfinity MinusInfinity = MinusInfinity"
| "dmul MinusInfinity PlusInfinity = MinusInfinity"
| "dmul MinusInfinity MinusInfinity = PlusInfinity"



section \<open>Paths\<close>

text \<open>
  An \<open>opentype.Path\<close> is its list of commands. \<open>M\<close> and \<open>L\<close> carry a point,
  \<open>C\<close> two control points and a point (\<open>x1 y1 x2 y2 x y\<close>), \<open>Q\<close> one control
  point and a point (\<open>x1 y1 x y\<close>), \<open>Z\<close> nothing. The numbers of a traced or stored
  path are finite; those of a transformed path are the doubles the transforms compute.
\<close>

datatype 'a cmd =
    MoveTo 'a 'a
  | LineTo 'a 'a
  | CurveTo 'a 'a 'a 'a 'a 'a
  | QuadTo 'a 'a 'a 'a
  | ClosePath

type_synonym path = "rat cmd list"

type_synonym double_path = "double cmd list"



definition clonePath :: "'a cmd list \<Rightarrow> 'a cmd list" where
  "clonePath originalPath = map (\<lambda>cmd. cmd) originalPath"

text \<open>\<open>originX + (command.x - originX) * scaleFactor\<close>, for each number of a command.\<close>

definition scale_coord :: "double \<Rightarrow> double \<Rightarrow> double \<Rightarrow> double" where
  "scale_coord scaleFactor origin v = dadd origin (dmul (dsub v origin) scaleFactor)"

fun scale_cmd :: "double \<Rightarrow> double \<Rightarrow> double \<Rightarrow> double cmd \<Rightarrow> double cmd" where
  "scale_cmd f ox oy (MoveTo x y) = MoveTo (scale_coord f ox x) (scale_coord f oy y)"
| "scale_cmd f ox oy (LineTo x y) = LineTo (scale_coord f ox x) (scale_coord f oy y)"
| "scale_cmd f ox oy (CurveTo x1 y1 x2 y2 x y) =
     CurveTo (scale_coord f ox x1) (scale_coord f oy y1)
             (scale_coord f ox x2) (scale_coord f oy y2)
             (scale_coord f ox x) (scale_coord f oy y)"
| "scale_cmd f ox oy (QuadTo x1 y1 x y) =
     QuadTo (scale_coord f ox x1) (scale_coord f oy y1)
            (scale_coord f ox x) (scale_coord f oy y)"
| "scale_cmd f ox oy ClosePath = ClosePath"

definition scalePath :: "double_path \<Rightarrow> double \<Rightarrow> double \<Rightarrow> double \<Rightarrow> double_path" where
  "scalePath p scaleFactor originX originY =
     (if scaleFactor = Finite 1 then p else map (scale_cmd scaleFactor originX originY) p)"

fun translate_cmd :: "double \<Rightarrow> double \<Rightarrow> double cmd \<Rightarrow> double cmd" where
  "translate_cmd dx dy (MoveTo x y) = MoveTo (dadd x dx) (dadd y dy)"
| "translate_cmd dx dy (LineTo x y) = LineTo (dadd x dx) (dadd y dy)"
| "translate_cmd dx dy (CurveTo x1 y1 x2 y2 x y) =
     CurveTo (dadd x1 dx) (dadd y1 dy) (dadd x2 dx) (dadd y2 dy) (dadd x dx) (dadd y dy)"
| "translate_cmd dx dy (QuadTo x1 y1 x y) =
     QuadTo (dadd x1 dx) (dadd y1 dy) (dadd x dx) (dadd y dy)"
| "translate_cmd dx dy ClosePath = ClosePath"

definition translatePath :: "double_path \<Rightarrow> double \<Rightarrow> double \<Rightarrow> double_path" where
  "translatePath p dx dy =
     (if dx = Finite 0 \<and> dy = Finite 0 then p else map (translate_cmd dx dy) p)"

section \<open>Bitmaps\<close>

text \<open>
  An \<open>ImageData\<close>: its dimensions and its bytes, four (R, G, B, A) per pixel, rows from
  the top. Reading \<open>data[i]\<close> past the end gives \<open>undefined\<close>, here \<open>None\<close>, and
  every comparison of \<open>undefined\<close> with a number is false.
\<close>

record ImageData =
  width :: nat
  height :: nat
  data :: "8 word list"

definition rd :: "8 word list \<Rightarrow> nat \<Rightarrow> nat option" where
  "rd d i = (if i < length d then Some (unat (d ! i)) else None)"

fun js_ge :: "nat option \<Rightarrow> int \<Rightarrow> bool" where
  "js_ge None k = False"
| "js_ge (Some v) k = (int v \<ge> k)"

fun js_le :: "nat option \<Rightarrow> int \<Rightarrow> bool" where
  "js_le None k = False"
| "js_le (Some v) k = (int v \<le> k)"

fun js_gt :: "nat option \<Rightarrow> int \<Rightarrow> bool" where
  "js_gt None k = False"
| "js_gt (Some v) k = (int v > k)"

definition BG_COLOR_R :: int where "BG_COLOR_R = 255"
definition BG_COLOR_G :: int where "BG_COLOR_G = 255"
definition BG_COLOR_B :: int where "BG_COLOR_B = 255"
definition BG_COLOR_TOLERANCE :: int where "BG_COLOR_TOLERANCE = 15"

datatype error =
    Failed2DContext
  | FailedCroppedContext
  | FailedPathContext
  | ReduceOfEmptyArray

record ProcessedCharacter =
  pc_char :: string
  pc_imageData :: ImageData
  pc_width :: int
  pc_height :: int
  pc_maxY :: int

section \<open>Foreground extraction\<close>

text \<open>The test of \<open>processImage\<close> on the pixel in column \<open>x\<close> of row \<open>y\<close>.\<close>

definition is_background :: "8 word list \<Rightarrow> nat \<Rightarrow> nat \<Rightarrow> nat \<Rightarrow> bool" where
  "is_background d w y_coord x_coord =
     (let i = (y_coord * w + x_coord) * 4;
          r = rd d i; g = rd d (i + 1); b = rd d (i + 2)
      in js_ge r (BG_COLOR_R - BG_COLOR_TOLERANCE) \<and> js_le r (BG_COLOR_R + BG_COLOR_TOLERANCE)
       \<and> js_ge g (BG_COLOR_G - BG_COLOR_TOLERANCE) \<and> js_le g (BG_COLOR_G + BG_COLOR_TOLERANCE)
       \<and> js_ge b (BG_COLOR_B - BG_COLOR_TOLERANCE) \<and> js_le b (BG_COLOR_B + BG_COLOR_TOLERANCE))"

record scan_state =
  s_data :: "8 word list"
  minX :: int
  minY :: int
  maxX :: int
  maxY :: int

definition scan_pixel :: "nat \<Rightarrow> nat \<Rightarrow> scan_state \<Rightarrow> nat \<Rightarrow> scan_state" where
  "scan_pixel w y_coord st x_coord =
     (if is_background (s_data st) w y_coord x_coord
      then st\<lparr>s_data := (s_data st)[(y_coord * w + x_coord) * 4 + 3 := 0]\<rparr>
      else st\<lparr>minX := (if int x_coord < minX st then int x_coord else minX st),
              maxX := (if int x_coord > maxX st then int x_coord else maxX st),
              minY := (if int y_coord < minY st then int y_coord else minY st),
              maxY := (if int y_coord > maxY st then int y_coord else maxY st)\<rparr>)"

definition scan_row :: "nat \<Rightarrow> scan_state \<Rightarrow> nat \<Rightarrow> scan_state" where
  "scan_row w st y_coord = foldl (scan_pixel w y_coord) st [0..<w]"

definition scan_image :: "ImageData \<Rightarrow> scan_state" where
  "scan_image imageData =
     foldl (scan_row (width imageData))
       \<lparr>s_data = data imageData, minX = int (width imageData), minY = int (height imageData),
        maxX = -1, maxY = -1\<rparr>
       [0..<height imageData]"

text \<open>
  \<open>ctx.getImageData(sx, sy, sw, sh)\<close> on a canvas holding \<open>canvas\<close>: the pixels of the
  rectangle, transparent black where it leaves the canvas. The canvas is taken to give
  back the bytes put on it; a browser keeps the alpha but may change the colour bytes
  of a pixel that is not fully opaque.
\<close>

definition pixel_at :: "ImageData \<Rightarrow> int \<Rightarrow> int \<Rightarrow> 8 word list" where
  "pixel_at canvas x y =
     (if 0 \<le> x \<and> x < int (width canvas) \<and> 0 \<le> y \<and> y < int (height canvas)
      then (let i = (nat y * width canvas + nat x) * 4
            in [data canvas ! i, data canvas ! (i + 1), data canvas ! (i + 2), data canvas ! (i + 3)])
      else [0, 0, 0, 0])"

definition getImageData :: "ImageData \<Rightarrow> int \<Rightarrow> int \<Rightarrow> int \<Rightarrow> int \<Rightarrow> ImageData" where
  "getImageData canvas sx sy sw sh =
     \<lparr>width = nat sw, height = nat sh,
      data = concat (map (\<lambda>r. concat (map (\<lambda>c. pixel_at canvas (sx + int c) (sy + int r))
                                         [0..<nat sw]))
                      [0..<nat sh])\<rparr>"

text \<open>
  \<open>processImage\<close>. The argument \<open>ctx\<close> is what the 2D context of the canvas gives back
  for the image drawn on it, \<open>None\<close> when \<open>getContext\<close> returns null; \<open>croppedCtx\<close>
  tells whether the second canvas has a 2D context.
\<close>

definition processImage :: "bool \<Rightarrow> ImageData option \<Rightarrow> error + ProcessedCharacter" where
  "processImage croppedCtx ctx =
     (case ctx of
        None \<Rightarrow> Inl Failed2DContext
      | Some imageData \<Rightarrow>
          (let st = scan_image imageData in
           if maxX st = -1 \<or> maxY st = -1
           then Inr \<lparr>pc_char = '' '',
                     pc_imageData = \<lparr>width = 1, height = 1, data = [0, 0, 0, 0]\<rparr>,
                     pc_width = 1, pc_height = 1, pc_maxY = -1\<rparr>
           else (let croppedWidth = max 1 (maxX st - minX st + 1);
                     croppedHeight = max 1 (maxY st - minY st + 1)
                 in if \<not> croppedCtx then Inl FailedCroppedContext
                    else Inr \<lparr>pc_char = [],
                              pc_imageData = getImageData (imageData\<lparr>data := s_data st\<rparr>)
                                               (minX st) (minY st) croppedWidth croppedHeight,
                              pc_width = croppedWidth, pc_height = croppedHeight,
                              pc_maxY = maxY st\<rparr>)))"

subsection \<open>Bitmaps, tolerance and bounding boxes, as the specification speaks of them\<close>

text \<open>
  An \<open>ImageData\<close> of the browser has positive dimensions and four bytes per pixel.
  A pixel is within tolerance when each of its three colour channels is within 15 of
  255, whatever its alpha. A box is tight when it holds every pixel that is not within
  tolerance and each of its four sides passes through one.
\<close>

definition wf_image :: "ImageData \<Rightarrow> bool" where
  "wf_image img \<longleftrightarrow>
     0 < width img \<and> 0 < height img \<and> length (data img) = 4 * width img * height img"

definition channel :: "ImageData \<Rightarrow> nat \<Rightarrow> nat \<Rightarrow> nat \<Rightarrow> int" where
  "channel img x y c = int (unat (data img ! ((y * width img + x) * 4 + c)))"

definition within_tolerance :: "ImageData \<Rightarrow> nat \<Rightarrow> nat \<Rightarrow> bool" where
  "within_tolerance img x y \<longleftrightarrow>
     \<bar>channel img x y 0 - 255\<bar> \<le> 15 \<and> \<bar>channel img x y 1 - 255\<bar> \<le> 15
       \<and> \<bar>channel img x y 2 - 255\<bar> \<le> 15"

definition tight_box :: "ImageData \<Rightarrow> int \<Rightarrow> int \<Rightarrow> int \<Rightarrow> int \<Rightarrow> bool" where
  "tight_box img x_lo y_lo x_hi y_hi \<longleftrightarrow>
     (\<forall>x < width img. \<forall>y < height img. \<not> within_tolerance img x y \<longrightarrow>
        x_lo \<le> int x \<and> int x \<le> x_hi \<and> y_lo \<le> int y \<and> int y \<le> y_hi)
     \<and> (\<exists>x < width img. \<exists>y < height img. \<not> within_tolerance img x y \<and> int x = x_lo)
     \<and> (\<exists>x < width img. \<exists>y < height img. \<not> within_tolerance img x y \<and> int x = x_hi)
     \<and> (\<exists>x < width img. \<exists>y < height img. \<not> within_tolerance img x y \<and> int y = y_lo)
     \<and> (\<exists>x < width img. \<exists>y < height img. \<not> within_tolerance img x y \<and> int y = y_hi)"

subsection \<open>The scan as one loop over the pixels in row-major order\<close>

definition same_rgb :: "8 word list \<Rightarrow> 8 word list \<Rightarrow> bool" where
  "same_rgb d d' \<longleftrightarrow> length d = length d' \<and> (\<forall>j. j mod 4 \<noteq> 3 \<longrightarrow> d ! j = d' ! j)"

definition pixel_step :: "nat \<Rightarrow> scan_state \<Rightarrow> nat \<times> nat \<Rightarrow> scan_state" where
  "pixel_step w st p = scan_pixel w (snd p) st (fst p)"

definition all_pixels :: "nat \<Rightarrow> nat \<Rightarrow> (nat \<times> nat) list" where
  "all_pixels w h = concat (map (\<lambda>y. map (\<lambda>x. (x, y)) [0..<w]) [0..<h])"

text \<open>A 2 by 2 bitmap: white, black, white, near white.\<close>

definition example_bitmap :: ImageData where
  "example_bitmap = \<lparr>width = 2, height = 2,
           data = [255, 255, 255, 255,  0, 0, 0, 255,
                   255, 255, 255, 255,  250, 250, 250, 255]\<rparr>"

section \<open>Outline tracing\<close>

text \<open>The alpha test of \<open>imageDataToOpentypePath\<close>: \<open>data[(y * width + x) * 4 + 3] > 128\<close>.\<close>

definition opaque :: "ImageData \<Rightarrow> nat \<Rightarrow> nat \<Rightarrow> bool" where
  "opaque imageData y_img x_img =
     js_gt (rd (data imageData) ((y_img * width imageData + x_img) * 4 + 3)) 128"

text \<open>The inner \<open>while\<close>: advance \<open>x_img\<close> to the end of the run of opaque pixels.\<close>

function scan_run :: "ImageData \<Rightarrow> nat \<Rightarrow> nat \<Rightarrow> nat" where
  "scan_run imageData y_img x_img =
     (if x_img < width imageData \<and> opaque imageData y_img x_img
      then scan_run imageData y_img (x_img + 1) else x_img)"
  by pat_completeness auto
termination
  by (relation "measure (\<lambda>(imageData, y_img, x_img). width imageData - x_img)") auto

declare scan_run.simps [simp del]

lemma scan_run_step:
  "x_img < width imageData \<Longrightarrow> opaque imageData y_img x_img
   \<Longrightarrow> scan_run imageData y_img x_img = scan_run imageData y_img (Suc x_img)"
  by (subst scan_run.simps) simp

lemma scan_run_stop:
  "\<not> (x_img < width imageData \<and> opaque imageData y_img x_img)
   \<Longrightarrow> scan_run imageData y_img x_img = x_img"
  by (subst scan_run.simps) auto

lemma scan_run_ge: "x_img \<le> scan_run imageData y_img x_img"
proof (induction imageData y_img x_img rule: scan_run.induct)
  case (1 imageData y_img x_img)
  show ?case
  proof (cases "x_img < width imageData \<and> opaque imageData y_img x_img")
    case True
    with 1 have "x_img + 1 \<le> scan_run imageData y_img (x_img + 1)" by simp
    with True show ?thesis by (simp add: scan_run_step)
  next
    case False
    then show ?thesis by (simp add: scan_run_stop)
  qed
qed

lemma scan_run_gt:
  "x_img < width imageData \<Longrightarrow> opaque imageData y_img x_img
   \<Longrightarrow> x_img < scan_run imageData y_img x_img"
  using scan_run_ge [of "Suc x_img" imageData y_img] by (simp add: scan_run_step)

text \<open>The five commands appended for the run from \<open>runStart_x_img\<close> to \<open>runEnd_x_img\<close>.\<close>

definition run_cmds :: "int \<Rightarrow> nat \<Rightarrow> int \<Rightarrow> int \<Rightarrow> path" where
  "run_cmds charPixelHeight y_img runStart_x_img runEnd_x_img =
     (let path_y_bottom = charPixelHeight - 1 - int y_img;
          path_y_top = charPixelHeight - int y_img
      in [MoveTo (of_int runStart_x_img) (of_int path_y_bottom),
          LineTo (of_int (runEnd_x_img + 1)) (of_int path_y_bottom),
          LineTo (of_int (runEnd_x_img + 1)) (of_int path_y_top),
          LineTo (of_int runStart_x_img) (of_int path_y_top),
          ClosePath])"

text \<open>The outer \<open>while\<close> over one row, from column \<open>x_img\<close> on.\<close>

function trace_row :: "ImageData \<Rightarrow> int \<Rightarrow> nat \<Rightarrow> nat \<Rightarrow> path \<Rightarrow> path" where
  "trace_row imageData charPixelHeight y_img x_img p =
     (if x_img < width imageData
      then (if opaque imageData y_img x_img
            then trace_row imageData charPixelHeight y_img (scan_run imageData y_img x_img)
                   (p @ run_cmds charPixelHeight y_img (int x_img)
                          (int (scan_run imageData y_img x_img) - 1))
            else trace_row imageData charPixelHeight y_img (x_img + 1) p)
      else p)"
  by pat_completeness auto
termination
proof (relation "measure (\<lambda>(imageData, charPixelHeight, y_img, x_img, p). width imageData - x_img)")
  show "wf (measure (\<lambda>(imageData, charPixelHeight, y_img, x_img, p). width imageData - x_img))"
    by simp
next
  fix imageData :: ImageData and charPixelHeight :: int and y_img x_img :: nat and p :: path
  assume "x_img < width imageData" "opaque imageData y_img x_img"
  then have "x_img < scan_run imageData y_img x_img" by (rule scan_run_gt)
  then show "((imageData, charPixelHeight, y_img, scan_run imageData y_img x_img,
               p @ run_cmds charPixelHeight y_img (int x_img)
                     (int (scan_run imageData y_img x_img) - 1)),
              (imageData, charPixelHeight, y_img, x_img, p))
             \<in> measure (\<lambda>(imageData, charPixelHeight, y_img, x_img, p). width imageData - x_img)"
    using \<open>x_img < width imageData\<close> by simp
next
  fix imageData :: ImageData and charPixelHeight :: int and y_img x_img :: nat and p :: path
  assume "x_img < width imageData"
  then show "((imageData, charPixelHeight, y_img, x_img + 1, p),
              (imageData, charPixelHeight, y_img, x_img, p))
             \<in> measure (\<lambda>(imageData, charPixelHeight, y_img, x_img, p). width imageData - x_img)"
    by simp
qed

declare trace_row.simps [simp del]

definition trace_image :: "ImageData \<Rightarrow> int \<Rightarrow> path" where
  "trace_image imageData charPixelHeight =
     foldl (\<lambda>p y_img. trace_row imageData charPixelHeight y_img 0 p) [] [0..<height imageData]"

text \<open>
  \<open>imageDataToOpentypePath\<close>; \<open>ctx\<close> tells whether the canvas of the PNG preview has a
  2D context. The preview's data URL is not modelled.
\<close>

definition imageDataToOpentypePath :: "bool \<Rightarrow> ImageData \<Rightarrow> int \<Rightarrow> error + path" where
  "imageDataToOpentypePath ctx imageData charPixelHeight =
     (if \<not> ctx then Inl FailedPathContext else Inr (trace_image imageData charPixelHeight))"

subsection \<open>Runs, rectangles and rasterization, as the specification speaks of them\<close>

text \<open>
  A maximal run of row \<open>r\<close> spans the columns \<open>x0\<close> to \<open>x1\<close> when these are
  opaque and the pixels next to it on either side, if any, are not. Its rectangle in a
  bitmap of height \<open>H\<close> has the corners \<open>(x0, H - 1 - r)\<close>, \<open>(x1 + 1, H - 1 - r)\<close>,
  \<open>(x1 + 1, H - r)\<close> and \<open>(x0, H - r)\<close>.
\<close>

definition maximal_run :: "ImageData \<Rightarrow> nat \<Rightarrow> nat \<Rightarrow> nat \<Rightarrow> bool" where
  "maximal_run img r x0 x1 \<longleftrightarrow>
     x0 \<le> x1 \<and> x1 < width img \<and> (\<forall>k \<in> {x0..x1}. opaque img r k)
     \<and> (x0 = 0 \<or> \<not> opaque img r (x0 - 1))
     \<and> (x1 + 1 = width img \<or> \<not> opaque img r (x1 + 1))"

definition run_rectangle :: "nat \<Rightarrow> nat \<Rightarrow> nat \<Rightarrow> nat \<Rightarrow> path" where
  "run_rectangle H r x0 x1 =
     [MoveTo (of_nat x0) (of_int (int H - 1 - int r)),
      LineTo (of_nat x1 + 1) (of_int (int H - 1 - int r)),
      LineTo (of_nat x1 + 1) (of_int (int H - int r)),
      LineTo (of_nat x0) (of_int (int H - int r)),
      ClosePath]"

text \<open>
  An outline read back as rectangles: five commands at a time, each group a closed
  axis-aligned rectangle, given by its lower left and upper right corners; \<open>None\<close>
  when the path is not of that form. At one font unit per pixel, the pixel in column
  \<open>x\<close> of row \<open>r\<close> from the top of \<open>H\<close> rows is the unit square from
  \<open>(x, H - 1 - r)\<close> to \<open>(x + 1, H - r)\<close>; rasterizing an outline covers the pixels
  that lie in one of its rectangles.
\<close>

definition rect_of :: "path \<Rightarrow> (rat \<times> rat \<times> rat \<times> rat) option" where
  "rect_of cs =
     (case cs of
        [MoveTo x0 y0, LineTo x1 y1, LineTo x2 y2, LineTo x3 y3, ClosePath] \<Rightarrow>
          (if y1 = y0 \<and> x2 = x1 \<and> y3 = y2 \<and> x3 = x0 then Some (x0, y0, x2, y2) else None)
      | _ \<Rightarrow> None)"

fun path_rects :: "path \<Rightarrow> (rat \<times> rat \<times> rat \<times> rat) list option" where
  "path_rects p =
     (if p = [] then Some []
      else case rect_of (take 5 p) of
             None \<Rightarrow> None
           | Some rect \<Rightarrow> map_option ((#) rect) (path_rects (drop 5 p)))"

declare path_rects.simps [simp del]

definition covers :: "rat \<times> rat \<times> rat \<times> rat \<Rightarrow> nat \<Rightarrow> nat \<Rightarrow> nat \<Rightarrow> bool" where
  "covers rect H x r =
     (case rect of (x_left, y_bottom, x_right, y_top) \<Rightarrow>
        x_left \<le> of_nat x \<and> of_nat x + 1 \<le> x_right
        \<and> y_bottom \<le> of_int (int H - 1 - int r) \<and> of_int (int H - int r) \<le> y_top)"

definition rasterize :: "path \<Rightarrow> nat \<Rightarrow> nat \<Rightarrow> nat \<Rightarrow> bool" where
  "rasterize p H x r =
     (case path_rects p of
        None \<Rightarrow> False
      | Some rects \<Rightarrow> \<exists>rect \<in> set rects. covers rect H x r)"

definition run_box :: "nat \<Rightarrow> nat \<times> nat \<times> nat \<Rightarrow> rat \<times> rat \<times> rat \<times> rat" where
  "run_box H run =
     (case run of (r, x0, x1) \<Rightarrow>
        (of_nat x0, of_int (int H - 1 - int r), of_nat x1 + 1, of_int (int H - int r)))"

text \<open>A 3 by 2 bitmap with the alphas 255, 0, 129 and 128, 255, 255.\<close>

definition example_glyph :: ImageData where
  "example_glyph = \<lparr>width = 3, height = 2,
     data = [0, 0, 0, 255,  0, 0, 0, 0,  0, 0, 0, 129,
             0, 0, 0, 128,  0, 0, 0, 255,  0, 0, 0, 255]\<rparr>"

section \<open>Baseline calibration\<close>

text \<open>
  The object \<open>counts\<close> is an association list in the order its keys were first
  written. \<open>acc[val] = (acc[val] || 0) + 1\<close> overwrites the entry of \<open>val\<close> in place
  or adds one at the end.
\<close>

definition count_step :: "(int \<times> nat) list \<Rightarrow> int \<Rightarrow> (int \<times> nat) list" where
  "count_step acc val =
     AList.update val ((case map_of acc val of None \<Rightarrow> 0 | Some c \<Rightarrow> c) + 1) acc"

text \<open>
  \<open>Object.keys\<close> lists the keys that are array indices (integers from 0 to
  \<open>2\<^sup>3\<^sup>2 - 2\<close>) in ascending order, then the other keys in the order they were
  first written.
\<close>

definition is_array_index :: "int \<Rightarrow> bool" where
  "is_array_index k = (0 \<le> k \<and> k < 2 ^ 32 - 1)"

definition Object_keys :: "(int \<times> nat) list \<Rightarrow> int list" where
  "Object_keys obj =
     sort (filter is_array_index (map fst obj))
       @ filter (\<lambda>k. \<not> is_array_index k) (map fst obj)"

fun js_gt2 :: "nat option \<Rightarrow> nat option \<Rightarrow> bool" where
  "js_gt2 (Some a) (Some b) = (a > b)"
| "js_gt2 _ _ = False"

text \<open>The reducer \<open>(a, b) => (counts[a] > counts[b] ? a : b)\<close>.\<close>

definition pick :: "(int \<times> nat) list \<Rightarrow> int \<Rightarrow> int \<Rightarrow> int" where
  "pick counts a b = (if js_gt2 (map_of counts a) (map_of counts b) then a else b)"

text \<open>\<open>reduce\<close> with no initial value: a TypeError on the empty array.\<close>

definition reduce1 :: "('a \<Rightarrow> 'a \<Rightarrow> 'a) \<Rightarrow> 'a list \<Rightarrow> error + 'a" where
  "reduce1 f xs = (case xs of [] \<Rightarrow> Inl ReduceOfEmptyArray | x # rest \<Rightarrow> Inr (foldl f x rest))"

datatype jsnum = NaN | Num rat

text \<open>
  A key of \<open>counts\<close> is the decimal numeral of the integer counted under it, and
  \<open>parseInt\<close> reads that numeral back.
\<close>

definition parseInt_key :: "int \<Rightarrow> jsnum" where
  "parseInt_key k = Num (of_int k)"

text \<open>
  The baseline of \<open>handleFetchAndProcessCharacters\<close>: \<open>baselineY\<close> starts at 0, is the
  reduced key when \<open>maxYValues\<close> is not empty, and is replaced by
  \<open>RENDER_SIZE * 0.8\<close> when it is NaN.
\<close>

definition determine_baseline :: "int list \<Rightarrow> error + rat" where
  "determine_baseline maxYValues =
     (case (if length maxYValues > 0
            then (let counts = foldl count_step [] maxYValues
                  in case reduce1 (pick counts) (Object_keys counts) of
                       Inl e \<Rightarrow> Inl e
                     | Inr k \<Rightarrow> Inr (parseInt_key k))
            else Inr (Num 0)) of
        Inl e \<Rightarrow> Inl e
      | Inr baselineY \<Rightarrow>
          Inr (case baselineY of NaN \<Rightarrow> RENDER_SIZE * (8 / 10) | Num b \<Rightarrow> b))"

text \<open>
  Stage 1 keeps the \<open>maxY\<close> of every character that was fetched and processed, the
  \<open>-1\<close> of an empty character left out.
\<close>

definition collect_maxYValues :: "(error + ProcessedCharacter) list \<Rightarrow> int list" where
  "collect_maxYValues outcomes =
     concat (map (\<lambda>outcome. case outcome of
                     Inl e \<Rightarrow> []
                   | Inr processedData \<Rightarrow>
                       (if pc_maxY processedData \<noteq> -1 then [pc_maxY processedData] else []))
                 outcomes)"

text \<open>
  The values of maximal frequency in a list, for the statements about the mode.
\<close>

definition modes :: "int list \<Rightarrow> int list" where
  "modes vs = filter (\<lambda>v. \<forall>u \<in> set vs. count_list vs u \<le> count_list vs v) vs"

section \<open>Stage 2: glyph records\<close>

datatype status = Pending | Fetching | Processing | Converting | Done | Error

record GlyphData =
  glyph_id :: string
  glyph_char :: string
  glyph_status :: status
  opentypePath :: "path option"
  glyph_width :: "rat option"
  visualWidth :: "int option"
  visualHeight :: "int option"
  xOffset :: rat
  yOffset :: rat
  scale :: rat
  errorMessage :: "error option"

text \<open>
  One turn of the stage 2 loop, on the record \<open>g\<close> of the character: the record
  written on success, or \<open>g\<close> flagged as an error when the tracer throws.
\<close>

definition convert_character ::
  "rat \<Rightarrow> bool \<Rightarrow> GlyphData \<Rightarrow> string \<Rightarrow> ProcessedCharacter \<Rightarrow> GlyphData" where
  "convert_character baselineY ctx g char processedData =
     (let yOffset = baselineY - of_int (pc_maxY processedData)
      in case imageDataToOpentypePath ctx (pc_imageData processedData) (pc_height processedData) of
           Inl e \<Rightarrow> g\<lparr>glyph_status := Error, errorMessage := Some e\<rparr>
         | Inr p \<Rightarrow>
             \<lparr>glyph_id = glyph_id g, glyph_char = char, glyph_status = Done,
              opentypePath = Some p,
              glyph_width = Some (if char = '' '' then of_int (Math_floor (UNITS_PER_EM / 3))
                                  else of_int (pc_width processedData)),
              visualWidth = Some (pc_width processedData),
              visualHeight = Some (pc_height processedData),
              xOffset = 0,
              yOffset = (if pc_maxY processedData = -1 then 0 else yOffset),
              scale = 1, errorMessage = None\<rparr>)"

section \<open>Font assembly\<close>

record FontAssemblyGlyphData =
  fa_char :: string
  fa_path :: path
  fa_width :: rat
  fa_height :: rat
  fa_xOffset :: rat
  fa_yOffset :: rat
  fa_scale :: rat

record otGlyph =
  ot_name :: string
  ot_unicode :: nat
  ot_advanceWidth :: rat
  ot_path :: double_path

text \<open>The numbers of a stored path, as doubles.\<close>

definition path_numbers :: "path \<Rightarrow> double_path" where
  "path_numbers p = map (map_cmd Finite) p"

text \<open>
  The outline written for a glyph: the clone of its path (or a fresh empty path when it
  has no command), scaled about (0, 0) and then translated. The scale and the offsets
  of a glyph are finite numbers.
\<close>

definition finalPath :: "FontAssemblyGlyphData \<Rightarrow> double_path" where
  "finalPath glyph =
     (if length (fa_path glyph) > 0
      then translatePath
             (scalePath (clonePath (path_numbers (fa_path glyph))) (Finite (fa_scale glyph))
                (Finite 0) (Finite 0))
             (Finite (fa_xOffset glyph)) (Finite (fa_yOffset glyph))
      else translatePath (scalePath [] (Finite (fa_scale glyph)) (Finite 0) (Finite 0))
             (Finite (fa_xOffset glyph)) (Finite (fa_yOffset glyph)))"

text \<open>
  \<open>glyph.width || Math.round(unitsPerEm / 2)\<close>: the left operand is falsy, and the
  right one taken, when the width is 0.
\<close>

definition glyph_advanceWidth :: "rat \<Rightarrow> FontAssemblyGlyphData \<Rightarrow> rat" where
  "glyph_advanceWidth unitsPerEm glyph =
     of_int (max 1 (Math_round
       ((if fa_width glyph = 0 then of_int (Math_round (unitsPerEm / 2)) else fa_width glyph)
        * fa_scale glyph)))"

definition notdef_glyph :: "rat \<Rightarrow> otGlyph" where
  "notdef_glyph unitsPerEm =
     (let ascent = Math_round (unitsPerEm * (85 / 100));
          notdefAdvanceWidth = Math_round (unitsPerEm / 2);
          notdefBoxWidth = of_int notdefAdvanceWidth / 2;
          notdefBoxHeight = of_int (Math_round (of_int ascent * (7 / 10)))
      in \<lparr>ot_name = ''.notdef'', ot_unicode = 0,
          ot_advanceWidth = of_int notdefAdvanceWidth,
          ot_path = path_numbers
                      [MoveTo 0 0, LineTo notdefBoxWidth 0,
                       LineTo notdefBoxWidth notdefBoxHeight, LineTo 0 notdefBoxHeight,
                       ClosePath]\<rparr>)"

definition space_glyph :: "FontAssemblyGlyphData list \<Rightarrow> rat \<Rightarrow> otGlyph" where
  "space_glyph glyphsData unitsPerEm =
     (let spaceAdvanceWidth =
            (case find (\<lambda>g. fa_char g = '' '') glyphsData of
               None \<Rightarrow> of_int (Math_floor (unitsPerEm / 3))
             | Some spaceGlyphEntry \<Rightarrow>
                 of_int (max 1 (Math_round (fa_width spaceGlyphEntry * fa_scale spaceGlyphEntry))))
      in \<lparr>ot_name = ''space'', ot_unicode = 32,
          ot_advanceWidth = spaceAdvanceWidth, ot_path = []\<rparr>)"

text \<open>
  One entry of \<open>glyphsData.forEach\<close>: nothing is pushed for the space, nor for a
  character whose \<open>charCodeAt(0)\<close> is NaN (the empty string).
\<close>

definition other_glyph :: "rat \<Rightarrow> FontAssemblyGlyphData \<Rightarrow> otGlyph option" where
  "other_glyph unitsPerEm glyph =
     (if fa_char glyph = '' '' then None
      else case fa_char glyph of
        [] \<Rightarrow> None
      | c # _ \<Rightarrow> Some \<lparr>ot_name = fa_char glyph, ot_unicode = of_char c,
                       ot_advanceWidth = glyph_advanceWidth unitsPerEm glyph,
                       ot_path = finalPath glyph\<rparr>)"

text \<open>
  The glyph list handed to \<open>opentype.Font\<close> by \<open>assembleTtfFont\<close>; the binary
  encoding itself is the library's.
\<close>

definition assembleTtfFont :: "FontAssemblyGlyphData list \<Rightarrow> rat \<Rightarrow> otGlyph list" where
  "assembleTtfFont glyphsData unitsPerEm =
     notdef_glyph unitsPerEm # space_glyph glyphsData unitsPerEm
       # List.map_filter (other_glyph unitsPerEm) glyphsData"

text \<open>The other order, for comparison: translate first, then scale about (0, 0).\<close>

definition translate_then_scale :: "FontAssemblyGlyphData \<Rightarrow> double_path" where
  "translate_then_scale glyph =
     scalePath
       (translatePath (clonePath (path_numbers (fa_path glyph)))
          (Finite (fa_xOffset glyph)) (Finite (fa_yOffset glyph)))
       (Finite (fa_scale glyph)) (Finite 0) (Finite 0)"


section \<open>The baseline of a batch with no valid maxY\<close>

lemma baseline_without_valid_maxY:
  assumes "\<And>pc. Inr pc \<in> set outcomes \<Longrightarrow> pc_maxY pc = -1"
  shows "determine_baseline (collect_maxYValues outcomes) = Inr 0"
proof -
  have "collect_maxYValues outcomes = []"
    using assms by (auto simp: collect_maxYValues_def split: sum.splits)
  then show ?thesis by (simp add: determine_baseline_def)
qed

text \<open>
  C1. The specification: when no character of the batch has a valid \<open>maxY\<close> (each one is
  \<open>-1\<close>, or nothing was collected), the baseline is the default
  \<open>RENDER_SIZE * 0.8 = 204.8\<close>. The code: \<open>maxYValues\<close> is empty in both cases,
  \<open>baselineY\<close> keeps its initial 0, which is not NaN, and the default is not taken.
  Evaluated on a batch of one empty character and on the empty list.
\<close>

theorem C1_baseline_of_empty_batch:
  "collect_maxYValues
     [Inr \<lparr>pc_char = '' '', pc_imageData = \<lparr>width = 1, height = 1, data = [0, 0, 0, 0]\<rparr>,
           pc_width = 1, pc_height = 1, pc_maxY = -1\<rparr>] = []
   \<and> determine_baseline [] = Inr 0
   \<and> determine_baseline [] \<noteq> Inr (RENDER_SIZE * (8 / 10))
   \<and> RENDER_SIZE * (8 / 10) = 1024 / 5"
  by (simp add: collect_maxYValues_def determine_baseline_def RENDER_SIZE_def)

section \<open>The mode and its tie-break\<close>

lemma map_of_count_step:
  "map_of (count_step acc val) =
     (map_of acc)(val \<mapsto> (case map_of acc val of None \<Rightarrow> 0 | Some c \<Rightarrow> c) + 1)"
  by (simp add: count_step_def update_conv')

lemma map_of_counts_gen:
  "map_of (foldl count_step acc vs) k =
     (if k \<in> set vs
      then Some ((case map_of acc k of None \<Rightarrow> 0 | Some c \<Rightarrow> c) + count_list vs k)
      else map_of acc k)"
proof (induction vs arbitrary: acc)
  case Nil
  show ?case by simp
next
  case (Cons v vs)
  show ?case by (simp add: Cons.IH map_of_count_step)
qed

lemma map_of_counts:
  "map_of (foldl count_step [] vs) k = (if k \<in> set vs then Some (count_list vs k) else None)"
  by (simp add: map_of_counts_gen)

lemma distinct_counts_gen:
  "distinct (map fst acc) \<Longrightarrow> distinct (map fst (foldl count_step acc vs))"
  by (induction vs arbitrary: acc) (simp_all add: count_step_def distinct_update)

lemma keys_counts_gen:
  "set (map fst (foldl count_step acc vs)) = fst ` set acc \<union> set vs"
  by (induction vs arbitrary: acc) (auto simp: count_step_def dom_update)

lemma Object_keys_indices:
  assumes "\<forall>k \<in> fst ` set obj. is_array_index k"
  shows "Object_keys obj = sort (map fst obj)"
proof -
  have "filter is_array_index (map fst obj) = map fst obj" using assms by (auto simp: filter_id_conv)
  moreover have "filter (\<lambda>k. \<not> is_array_index k) (map fst obj) = []"
    using assms by (auto simp: filter_empty_conv)
  ultimately show ?thesis by (simp add: Object_keys_def)
qed

lemma pick_counts:
  "b \<in> set vs \<Longrightarrow>
   pick (foldl count_step [] vs) a b = (if count_list vs a > count_list vs b then a else b)"
  by (auto simp: pick_def map_of_counts)

lemma foldl_pick_sorted:
  assumes "sorted_wrt (<) (a # ks)" and "set (a # ks) \<subseteq> set vs"
  shows "foldl (pick (foldl count_step [] vs)) a ks \<in> set (a # ks)
       \<and> (\<forall>k \<in> set (a # ks).
             count_list vs k < count_list vs (foldl (pick (foldl count_step [] vs)) a ks)
             \<or> (count_list vs k = count_list vs (foldl (pick (foldl count_step [] vs)) a ks)
                \<and> k \<le> foldl (pick (foldl count_step [] vs)) a ks))"
  using assms
proof (induction ks arbitrary: a)
  case Nil
  show ?case by simp
next
  case (Cons b ks)
  let ?f = "count_list vs"
  let ?pick = "pick (foldl count_step [] vs)"
  define r where "r = foldl ?pick (?pick a b) ks"
  have r_eq: "foldl ?pick a (b # ks) = r" by (simp add: r_def)
  from Cons.prems have b: "b \<in> set vs" by simp
  show ?case
  proof (cases "?f a > ?f b")
    case True
    with b have p: "?pick a b = a" by (simp add: pick_counts)
    from Cons.prems have s: "sorted_wrt (<) (a # ks)" "set (a # ks) \<subseteq> set vs" by auto
    from Cons.IH [OF s] have 1: "r \<in> set (a # ks)"
      and 2: "\<forall>k \<in> set (a # ks). ?f k < ?f r \<or> (?f k = ?f r \<and> k \<le> r)"
      by (simp_all add: r_def p)
    from 2 have "?f a \<le> ?f r" by auto
    with True have "?f b < ?f r" by simp
    with 1 2 show ?thesis unfolding r_eq by auto
  next
    case False
    with b have p: "?pick a b = b" by (simp add: pick_counts)
    from Cons.prems have s: "sorted_wrt (<) (b # ks)" "set (b # ks) \<subseteq> set vs"
      and ab: "a < b" by auto
    from Cons.IH [OF s] have 1: "r \<in> set (b # ks)"
      and 2: "\<forall>k \<in> set (b # ks). ?f k < ?f r \<or> (?f k = ?f r \<and> k \<le> r)"
      by (simp_all add: r_def p)
    from 2 have "?f b < ?f r \<or> (?f b = ?f r \<and> b \<le> r)" by auto
    with False ab have "?f a < ?f r \<or> (?f a = ?f r \<and> a \<le> r)" by auto
    with 1 2 show ?thesis unfolding r_eq by auto
  qed
qed

lemma determine_baseline_mode:
  assumes "vs \<noteq> []" and "\<forall>v \<in> set vs. is_array_index v"
  shows "\<exists>r \<in> set vs. determine_baseline vs = Inr (of_int r)
           \<and> (\<forall>v \<in> set vs. count_list vs v < count_list vs r
                  \<or> (count_list vs v = count_list vs r \<and> v \<le> r))"
proof -
  define counts where "counts = foldl count_step [] vs"
  have keys_set: "fst ` set counts = set vs"
    unfolding counts_def using keys_counts_gen [of "[]" vs] by simp
  have dist: "distinct (map fst counts)"
    unfolding counts_def by (rule distinct_counts_gen) simp
  from keys_set assms(2) have "\<forall>k \<in> fst ` set counts. is_array_index k" by simp
  then have keys: "Object_keys counts = sort (map fst counts)" by (rule Object_keys_indices)
  have set_keys: "set (Object_keys counts) = set vs" by (simp add: keys keys_set)
  have sorted_keys: "sorted_wrt (<) (Object_keys counts)"
    using dist by (simp add: keys strict_sorted_iff)
  from set_keys assms(1) obtain a ks where aks: "Object_keys counts = a # ks"
    by (cases "Object_keys counts") auto
  define r where "r = foldl (pick counts) a ks"
  from sorted_keys set_keys have "sorted_wrt (<) (a # ks)" "set (a # ks) \<subseteq> set vs"
    by (simp_all add: aks)
  from foldl_pick_sorted [OF this]
  have 1: "r \<in> set (a # ks)"
    and 2: "\<forall>k \<in> set (a # ks). count_list vs k < count_list vs r
               \<or> (count_list vs k = count_list vs r \<and> k \<le> r)"
    by (simp_all add: r_def counts_def)
  have set_aks: "set (a # ks) = set vs" using set_keys by (simp add: aks)
  have "determine_baseline vs = Inr (of_int r)"
    using assms(1) aks
    by (simp add: determine_baseline_def counts_def [symmetric] reduce1_def parseInt_key_def
          r_def Let_def)
  with 1 2 show ?thesis unfolding set_aks by blast
qed

lemma determine_baseline_Max_modes:
  assumes "vs \<noteq> []" and "\<forall>v \<in> set vs. is_array_index v"
  shows "determine_baseline vs = Inr (of_int (Max (set (modes vs))))"
proof -
  from determine_baseline_mode [OF assms] obtain r where r: "r \<in> set vs"
    and eq: "determine_baseline vs = Inr (of_int r)"
    and top: "\<forall>v \<in> set vs. count_list vs v < count_list vs r
                  \<or> (count_list vs v = count_list vs r \<and> v \<le> r)"
    by blast
  from r top have "r \<in> set (modes vs)" by (auto simp: modes_def)
  moreover have "v \<le> r" if "v \<in> set (modes vs)" for v
  proof -
    from that have v: "v \<in> set vs" and "count_list vs r \<le> count_list vs v"
      using r by (auto simp: modes_def)
    with top show ?thesis by auto
  qed
  ultimately have "Max (set (modes vs)) = r" by (intro Max_eqI) auto
  with eq show ?thesis by simp
qed

lemma modes_mset:
  assumes "mset vs' = mset vs"
  shows "set (modes vs') = set (modes vs)"
proof -
  from assms have c: "count_list vs' = count_list vs"
    by (metis count_mset ext)
  from assms have s: "set vs' = set vs" by (rule mset_eq_setD)
  show ?thesis by (simp add: modes_def c s)
qed

lemma collected_array_indices:
  assumes "\<And>pc. Inr pc \<in> set outcomes \<Longrightarrow> pc_maxY pc = -1 \<or> is_array_index (pc_maxY pc)"
  shows "\<forall>v \<in> set (collect_maxYValues outcomes). is_array_index v"
  using assms by (auto simp: collect_maxYValues_def split: sum.splits if_splits)

text \<open>
  C9. For every non-empty list of collected \<open>maxY\<close> values (row indices, so array
  indices as keys of \<open>counts\<close>), the baseline is a value of the list that occurs at
  least as often as any other value, and every permutation of the list gives the same
  baseline.
\<close>

theorem C9_mode_and_permutation:
  assumes "vs \<noteq> []" and "\<forall>v \<in> set vs. is_array_index v" and "mset vs' = mset vs"
  shows "\<exists>r \<in> set vs. determine_baseline vs = Inr (of_int r)
           \<and> (\<forall>v. count_list vs v \<le> count_list vs r)
           \<and> determine_baseline vs' = determine_baseline vs"
proof -
  from determine_baseline_mode [OF assms(1,2)] obtain r where r: "r \<in> set vs"
    and eq: "determine_baseline vs = Inr (of_int r)"
    and top: "\<forall>v \<in> set vs. count_list vs v < count_list vs r
                  \<or> (count_list vs v = count_list vs r \<and> v \<le> r)"
    by blast
  have most: "count_list vs v \<le> count_list vs r" for v
  proof (cases "v \<in> set vs")
    case True
    with top show ?thesis by auto
  next
    case False
    then show ?thesis by (simp add: count_list_0_iff)
  qed
  from assms(3) have s: "set vs' = set vs" by (rule mset_eq_setD)
  with assms(1,2) have "vs' \<noteq> []" "\<forall>v \<in> set vs'. is_array_index v" by auto
  then have "determine_baseline vs' = Inr (of_int (Max (set (modes vs'))))"
    by (rule determine_baseline_Max_modes)
  also have "\<dots> = Inr (of_int (Max (set (modes vs))))"
    by (simp add: modes_mset [OF assms(3)])
  also have "\<dots> = determine_baseline vs"
    by (rule determine_baseline_Max_modes [OF assms(1,2), symmetric])
  finally show ?thesis using r eq most by blast
qed

theorem C9_mode_and_permutation_witness:
  "determine_baseline [7, 5, 3, 5, 3] = determine_baseline [3, 5, 5, 3, 7]"
proof -
  have "\<exists>r \<in> set [3, 5, 5, 3, 7]. determine_baseline [3, 5, 5, 3, 7] = Inr (of_int r)
           \<and> (\<forall>v. count_list [3, 5, 5, 3, 7 :: int] v \<le> count_list [3, 5, 5, 3, 7] r)
           \<and> determine_baseline [7, 5, 3, 5, 3] = determine_baseline [3, 5, 5, 3, 7]"
    by (rule C9_mode_and_permutation) (simp_all add: is_array_index_def)
  then show ?thesis by blast
qed

text \<open>
  C10. For every non-empty list of collected \<open>maxY\<close> values (row indices), the baseline
  is the largest of the values of maximal frequency: when several values are tied for
  the highest frequency, the numerically largest of them is returned.
\<close>

theorem C10_largest_of_tied:
  assumes "vs \<noteq> []" and "\<forall>v \<in> set vs. is_array_index v"
  shows "determine_baseline vs = Inr (of_int (Max (set (modes vs))))"
  using assms by (rule determine_baseline_Max_modes)

theorem C10_largest_of_tied_witness:
  "set (modes [3, 5, 5, 3, 7]) = {3, 5} \<and> determine_baseline [3, 5, 5, 3, 7] = Inr 5"
  using C10_largest_of_tied [of "[3, 5, 5, 3, 7]"]
  by (auto simp: is_array_index_def modes_def)

section \<open>Vertical placement\<close>

text \<open>
  C2. For a processed character converted in stage 2 (the tracer has its canvas
  context), the record written is \<open>done\<close> and its \<open>yOffset\<close> is the baseline minus the
  character's \<open>maxY\<close> when \<open>maxY\<close> is not \<open>-1\<close>, and 0 when it is.
\<close>

theorem C2_yOffset:
  assumes "ctx"
  shows "glyph_status (convert_character baselineY ctx g char processedData) = Done
    \<and> yOffset (convert_character baselineY ctx g char processedData) =
        (if pc_maxY processedData = -1 then 0
         else baselineY - of_int (pc_maxY processedData))"
  using assms by (simp add: convert_character_def imageDataToOpentypePath_def)

theorem C2_yOffset_witness:
  "yOffset (convert_character 200 True
       \<lparr>glyph_id = ''A-1'', glyph_char = ''A'', glyph_status = Converting,
        opentypePath = None, glyph_width = None, visualWidth = None, visualHeight = None,
        xOffset = 0, yOffset = 0, scale = 1, errorMessage = None\<rparr>
       ''A''
       \<lparr>pc_char = [], pc_imageData = \<lparr>width = 1, height = 1, data = [0, 0, 0, 255]\<rparr>,
        pc_width = 1, pc_height = 1, pc_maxY = 190\<rparr>) = 10"
  using C2_yOffset [of True 200 _ "''A''"
      "\<lparr>pc_char = [], pc_imageData = \<lparr>width = 1, height = 1, data = [0, 0, 0, 255]\<rparr>,
        pc_width = 1, pc_height = 1, pc_maxY = 190\<rparr>"]
  by simp

section \<open>The foreground extractor\<close>

lemma same_rgb_refl: "same_rgb d d"
  by (simp add: same_rgb_def)

lemma same_rgb_update:
  assumes "same_rgb d d0"
  shows "same_rgb (d[k * 4 + 3 := v]) d0"
proof -
  have "(k * 4 + 3) mod 4 = 3" by presburger
  then have "d[k * 4 + 3 := v] ! j = d ! j" if "j mod 4 \<noteq> 3" for j
    using that by (cases "j = k * 4 + 3") simp_all
  with assms show ?thesis by (simp add: same_rgb_def)
qed

lemma rd_same_rgb: "same_rgb d d0 \<Longrightarrow> j mod 4 \<noteq> 3 \<Longrightarrow> rd d j = rd d0 j"
  by (simp add: same_rgb_def rd_def)

lemma is_background_same_rgb:
  assumes "same_rgb d d0"
  shows "is_background d w y x = is_background d0 w y x"
proof -
  have "rd d ((y * w + x) * 4) = rd d0 ((y * w + x) * 4)"
    by (rule rd_same_rgb [OF assms]) simp
  moreover have "rd d ((y * w + x) * 4 + 1) = rd d0 ((y * w + x) * 4 + 1)"
    by (rule rd_same_rgb [OF assms]) presburger
  moreover have "rd d ((y * w + x) * 4 + 2) = rd d0 ((y * w + x) * 4 + 2)"
    by (rule rd_same_rgb [OF assms]) presburger
  ultimately show ?thesis by (simp add: is_background_def Let_def)
qed

lemma pixel_index_bound:
  fixes x y w h :: nat
  assumes "x < w" and "y < h"
  shows "(y * w + x) * 4 + 3 < 4 * w * h"
proof -
  from assms(1) have "y * w + x < y * w + w" by (rule add_strict_left_mono)
  also have "\<dots> = (y + 1) * w" by simp
  also from assms(2) have "\<dots> \<le> h * w" by (intro mult_le_mono1) simp
  finally have "y * w + x + 1 \<le> w * h" by (simp add: mult.commute)
  then have "(y * w + x + 1) * 4 \<le> w * h * 4" by (rule mult_le_mono1)
  then show ?thesis by (simp add: algebra_simps)
qed

lemma is_background_within_tolerance:
  assumes "wf_image img" and "x < width img" and "y < height img"
  shows "is_background (data img) (width img) y x = within_tolerance img x y"
proof -
  have b: "(y * width img + x) * 4 + 3 < length (data img)"
    using pixel_index_bound [OF assms(2,3)] assms(1) by (simp add: wf_image_def)
  have u: "uint v \<le> 255" for v :: "8 word"
    using uint_lt2p [of v] by simp
  from b show ?thesis
    using u [of "data img ! ((y * width img + x) * 4)"]
      u [of "data img ! ((y * width img + x) * 4 + 1)"]
      u [of "data img ! ((y * width img + x) * 4 + 2)"]
    by (auto simp: is_background_def Let_def rd_def within_tolerance_def channel_def
        BG_COLOR_R_def BG_COLOR_G_def BG_COLOR_B_def BG_COLOR_TOLERANCE_def)
qed

lemma scan_rows_flatten:
  "foldl (scan_row w) st ys
     = foldl (pixel_step w) st (concat (map (\<lambda>y. map (\<lambda>x. (x, y)) [0..<w]) ys))"
  by (induction ys arbitrary: st) (simp_all add: scan_row_def foldl_map pixel_step_def)

lemma set_all_pixels: "set (all_pixels w h) = {(x, y). x < w \<and> y < h}"
  by (auto simp: all_pixels_def)

lemma pixel_step_fields:
  "s_data (pixel_step w st (x, y)) =
     (if is_background (s_data st) w y x then (s_data st)[(y * w + x) * 4 + 3 := 0] else s_data st)"
  "minX (pixel_step w st (x, y)) =
     (if is_background (s_data st) w y x then minX st else min (int x) (minX st))"
  "maxX (pixel_step w st (x, y)) =
     (if is_background (s_data st) w y x then maxX st else max (int x) (maxX st))"
  "minY (pixel_step w st (x, y)) =
     (if is_background (s_data st) w y x then minY st else min (int y) (minY st))"
  "maxY (pixel_step w st (x, y)) =
     (if is_background (s_data st) w y x then maxY st else max (int y) (maxY st))"
  by (simp_all add: pixel_step_def scan_pixel_def)

lemma pixel_step_same_rgb:
  assumes "same_rgb (s_data st) d0"
  shows "same_rgb (s_data (pixel_step w st p)) d0"
proof (cases p)
  case (Pair x y)
  show ?thesis
  proof (cases "is_background (s_data st) w y x")
    case True
    then have "s_data (pixel_step w st p) = (s_data st)[(y * w + x) * 4 + 3 := 0]"
      unfolding Pair pixel_step_fields by (rule if_P)
    then show ?thesis by (simp only: same_rgb_update [OF assms])
  next
    case False
    then have "s_data (pixel_step w st p) = s_data st"
      unfolding Pair pixel_step_fields by (rule if_not_P)
    with assms show ?thesis by simp
  qed
qed

lemma pixel_step_mono:
  "minX (pixel_step w st p) \<le> minX st \<and> maxX st \<le> maxX (pixel_step w st p)
   \<and> minY (pixel_step w st p) \<le> minY st \<and> maxY st \<le> maxY (pixel_step w st p)"
  by (cases p) (simp add: pixel_step_fields)

lemma scan_mono:
  "minX (foldl (pixel_step w) st ps) \<le> minX st \<and> maxX st \<le> maxX (foldl (pixel_step w) st ps)
   \<and> minY (foldl (pixel_step w) st ps) \<le> minY st \<and> maxY st \<le> maxY (foldl (pixel_step w) st ps)"
proof (induction ps arbitrary: st)
  case Nil
  show ?case by simp
next
  case (Cons p ps)
  from Cons.IH [of "pixel_step w st p"] pixel_step_mono [of w st p]
  show ?case by simp
qed

lemma scan_contains:
  assumes "same_rgb (s_data st) d0" and "(x, y) \<in> set ps" and "\<not> is_background d0 w y x"
  shows "minX (foldl (pixel_step w) st ps) \<le> int x \<and> int x \<le> maxX (foldl (pixel_step w) st ps)
    \<and> minY (foldl (pixel_step w) st ps) \<le> int y \<and> int y \<le> maxY (foldl (pixel_step w) st ps)"
  using assms
proof (induction ps arbitrary: st)
  case Nil
  then show ?case by simp
next
  case (Cons p ps)
  let ?st1 = "pixel_step w st p"
  from Cons.prems(1) have rgb1: "same_rgb (s_data ?st1) d0" by (rule pixel_step_same_rgb)
  show ?case
  proof (cases "(x, y) \<in> set ps")
    case True
    from Cons.IH [OF rgb1 True Cons.prems(3)] show ?thesis by simp
  next
    case False
    with Cons.prems(2) have p: "p = (x, y)" by simp
    from Cons.prems(1,3) have "\<not> is_background (s_data st) w y x"
      by (simp add: is_background_same_rgb)
    then have "minX ?st1 \<le> int x \<and> int x \<le> maxX ?st1 \<and> minY ?st1 \<le> int y \<and> int y \<le> maxY ?st1"
      by (simp add: p pixel_step_fields)
    with scan_mono [of w ?st1 ps] show ?thesis by simp
  qed
qed

lemma scan_touches:
  assumes "same_rgb (s_data st) d0"
  shows "(minX (foldl (pixel_step w) st ps) = minX st
          \<or> (\<exists>x y. (x, y) \<in> set ps \<and> \<not> is_background d0 w y x
                \<and> minX (foldl (pixel_step w) st ps) = int x))
       \<and> (maxX (foldl (pixel_step w) st ps) = maxX st
          \<or> (\<exists>x y. (x, y) \<in> set ps \<and> \<not> is_background d0 w y x
                \<and> maxX (foldl (pixel_step w) st ps) = int x))
       \<and> (minY (foldl (pixel_step w) st ps) = minY st
          \<or> (\<exists>x y. (x, y) \<in> set ps \<and> \<not> is_background d0 w y x
                \<and> minY (foldl (pixel_step w) st ps) = int y))
       \<and> (maxY (foldl (pixel_step w) st ps) = maxY st
          \<or> (\<exists>x y. (x, y) \<in> set ps \<and> \<not> is_background d0 w y x
                \<and> maxY (foldl (pixel_step w) st ps) = int y))"
  using assms
proof (induction ps arbitrary: st)
  case Nil
  show ?case by simp
next
  case (Cons p ps)
  obtain x y where p: "p = (x, y)" by (cases p)
  define st1 where "st1 = pixel_step w st p"
  define st2 where "st2 = foldl (pixel_step w) st1 ps"
  have st2: "foldl (pixel_step w) st (p # ps) = st2" by (simp add: st2_def st1_def)
  from Cons.prems have rgb1: "same_rgb (s_data st1) d0"
    unfolding st1_def by (rule pixel_step_same_rgb)
  from Cons.prems have bg: "is_background (s_data st) w y x = is_background d0 w y x"
    by (rule is_background_same_rgb)
  have 1: "minX st1 = minX st \<or> (\<not> is_background d0 w y x \<and> minX st1 = int x)"
    and 2: "maxX st1 = maxX st \<or> (\<not> is_background d0 w y x \<and> maxX st1 = int x)"
    and 3: "minY st1 = minY st \<or> (\<not> is_background d0 w y x \<and> minY st1 = int y)"
    and 4: "maxY st1 = maxY st \<or> (\<not> is_background d0 w y x \<and> maxY st1 = int y)"
    by (auto simp: st1_def p pixel_step_fields bg min_def max_def)
  note ih = Cons.IH [OF rgb1, folded st2_def]
  have xy: "(x, y) \<in> set (p # ps)" by (simp add: p)
  have sub: "(a, b) \<in> set ps \<Longrightarrow> (a, b) \<in> set (p # ps)" for a b by simp
  from ih 1 xy sub have a: "minX st2 = minX st
      \<or> (\<exists>x y. (x, y) \<in> set (p # ps) \<and> \<not> is_background d0 w y x \<and> minX st2 = int x)"
    by metis
  from ih 2 xy sub have b: "maxX st2 = maxX st
      \<or> (\<exists>x y. (x, y) \<in> set (p # ps) \<and> \<not> is_background d0 w y x \<and> maxX st2 = int x)"
    by metis
  from ih 3 xy sub have c: "minY st2 = minY st
      \<or> (\<exists>x y. (x, y) \<in> set (p # ps) \<and> \<not> is_background d0 w y x \<and> minY st2 = int y)"
    by metis
  from ih 4 xy sub have d: "maxY st2 = maxY st
      \<or> (\<exists>x y. (x, y) \<in> set (p # ps) \<and> \<not> is_background d0 w y x \<and> maxY st2 = int y)"
    by metis
  from a b c d show ?case unfolding st2 by blast
qed

lemma scan_image_flat:
  "scan_image img =
     foldl (pixel_step (width img))
       \<lparr>s_data = data img, minX = int (width img), minY = int (height img), maxX = -1, maxY = -1\<rparr>
       (all_pixels (width img) (height img))"
  by (simp add: scan_image_def scan_rows_flatten all_pixels_def)

lemma scan_image_all_background:
  assumes "wf_image img"
    and "\<forall>x < width img. \<forall>y < height img. within_tolerance img x y"
  shows "maxX (scan_image img) = -1 \<and> maxY (scan_image img) = -1"
proof -
  let ?init = "\<lparr>s_data = data img, minX = int (width img), minY = int (height img),
                 maxX = -1, maxY = -1\<rparr>"
  have rgb: "same_rgb (s_data ?init) (data img)" by (simp add: same_rgb_refl)
  have none: "is_background (data img) (width img) y x"
    if "(x, y) \<in> set (all_pixels (width img) (height img))" for x y
    using that assms by (simp add: set_all_pixels is_background_within_tolerance)
  from scan_touches [OF rgb, of "width img" "all_pixels (width img) (height img)"] none
  show ?thesis unfolding scan_image_flat by auto
qed

lemma scan_image_tight_box:
  assumes "wf_image img" and "x0 < width img" and "y0 < height img"
    and "\<not> within_tolerance img x0 y0"
  shows "tight_box img (minX (scan_image img)) (minY (scan_image img))
           (maxX (scan_image img)) (maxY (scan_image img))"
proof -
  let ?w = "width img" and ?h = "height img"
  let ?init = "\<lparr>s_data = data img, minX = int ?w, minY = int ?h, maxX = -1, maxY = -1\<rparr>"
  define st where "st = scan_image img"
  have st: "st = foldl (pixel_step ?w) ?init (all_pixels ?w ?h)"
    unfolding st_def by (rule scan_image_flat)
  have rgb: "same_rgb (s_data ?init) (data img)" by (simp add: same_rgb_refl)
  have fg: "\<not> is_background (data img) ?w y x \<longleftrightarrow> \<not> within_tolerance img x y"
    if "x < ?w" "y < ?h" for x y
    using that assms(1) by (simp add: is_background_within_tolerance)
  have inside: "minX st \<le> int x \<and> int x \<le> maxX st \<and> minY st \<le> int y \<and> int y \<le> maxY st"
    if "x < ?w" "y < ?h" "\<not> within_tolerance img x y" for x y
    unfolding st
    by (rule scan_contains [OF rgb]) (use that fg in \<open>simp_all add: set_all_pixels\<close>)
  from inside [OF assms(2,3,4)] assms(2,3)
  have ne: "minX st \<noteq> int ?w" "maxX st \<noteq> -1" "minY st \<noteq> int ?h" "maxY st \<noteq> -1"
    by auto
  from scan_touches [OF rgb, of ?w "all_pixels ?w ?h", folded st] ne
  have t1: "\<exists>x y. (x, y) \<in> set (all_pixels ?w ?h) \<and> \<not> is_background (data img) ?w y x
              \<and> minX st = int x"
    and t2: "\<exists>x y. (x, y) \<in> set (all_pixels ?w ?h) \<and> \<not> is_background (data img) ?w y x
              \<and> maxX st = int x"
    and t3: "\<exists>x y. (x, y) \<in> set (all_pixels ?w ?h) \<and> \<not> is_background (data img) ?w y x
              \<and> minY st = int y"
    and t4: "\<exists>x y. (x, y) \<in> set (all_pixels ?w ?h) \<and> \<not> is_background (data img) ?w y x
              \<and> maxY st = int y"
    by simp_all
  from t1 fg have "\<exists>x < ?w. \<exists>y < ?h. \<not> within_tolerance img x y \<and> int x = minX st"
    unfolding set_all_pixels by (metis (mono_tags, lifting) case_prodD mem_Collect_eq)
  moreover from t2 fg have "\<exists>x < ?w. \<exists>y < ?h. \<not> within_tolerance img x y \<and> int x = maxX st"
    unfolding set_all_pixels by (metis (mono_tags, lifting) case_prodD mem_Collect_eq)
  moreover from t3 fg have "\<exists>x < ?w. \<exists>y < ?h. \<not> within_tolerance img x y \<and> int y = minY st"
    unfolding set_all_pixels by (metis (mono_tags, lifting) case_prodD mem_Collect_eq)
  moreover from t4 fg have "\<exists>x < ?w. \<exists>y < ?h. \<not> within_tolerance img x y \<and> int y = maxY st"
    unfolding set_all_pixels by (metis (mono_tags, lifting) case_prodD mem_Collect_eq)
  ultimately show ?thesis
    unfolding tight_box_def st_def [symmetric] using inside by blast
qed

text \<open>
  C6. For every bitmap all of whose pixels are within tolerance of white (alpha
  ignored), \<open>processImage\<close> returns, whether or not the second canvas has a
  context, the empty character: \<open>maxY = -1\<close>, width 1, height 1 and the 1 by 1
  transparent bitmap.
\<close>

theorem C6_all_background:
  assumes "wf_image img"
    and "\<forall>x < width img. \<forall>y < height img. within_tolerance img x y"
  shows "processImage croppedCtx (Some img) =
     Inr \<lparr>pc_char = '' '', pc_imageData = \<lparr>width = 1, height = 1, data = [0, 0, 0, 0]\<rparr>,
          pc_width = 1, pc_height = 1, pc_maxY = -1\<rparr>"
  using scan_image_all_background [OF assms] by (simp add: processImage_def)

theorem C6_all_background_witness:
  "processImage False
     (Some \<lparr>width = 2, height = 1, data = [255, 255, 255, 255, 240, 250, 245, 7]\<rparr>) =
     Inr \<lparr>pc_char = '' '', pc_imageData = \<lparr>width = 1, height = 1, data = [0, 0, 0, 0]\<rparr>,
          pc_width = 1, pc_height = 1, pc_maxY = -1\<rparr>"
proof -
  have "within_tolerance
          \<lparr>width = 2, height = 1, data = [255, 255, 255, 255, 240, 250, 245, 7]\<rparr> x y"
    if "x < 2" "y < 1" for x y
  proof -
    from that have "x = 0 \<or> x = 1" and "y = 0" by auto
    then show ?thesis by (auto simp: within_tolerance_def channel_def)
  qed
  with C6_all_background [of "\<lparr>width = 2, height = 1, data = [255, 255, 255, 255, 240, 250, 245, 7]\<rparr>" False]
  show ?thesis by (simp add: wf_image_def)
qed

text \<open>
  C7. For every bitmap with a pixel that is not within tolerance, the box
  \<open>(minX, minY, maxX, maxY)\<close> the scan ends with is the tight box of those pixels, and
  \<open>processImage\<close> (the second canvas having its context) returns that \<open>maxY\<close> and a
  crop of width \<open>maxX - minX + 1\<close> and height \<open>maxY - minY + 1\<close>, both at least 1.
\<close>

theorem C7_tight_bounding_box:
  assumes "wf_image img" and "x0 < width img" and "y0 < height img"
    and "\<not> within_tolerance img x0 y0"
  shows "\<exists>pc. processImage True (Some img) = Inr pc
    \<and> tight_box img (minX (scan_image img)) (minY (scan_image img))
         (maxX (scan_image img)) (maxY (scan_image img))
    \<and> pc_maxY pc = maxY (scan_image img)
    \<and> pc_width pc = maxX (scan_image img) - minX (scan_image img) + 1
    \<and> pc_height pc = maxY (scan_image img) - minY (scan_image img) + 1
    \<and> int (width (pc_imageData pc)) = pc_width pc
    \<and> int (height (pc_imageData pc)) = pc_height pc
    \<and> 1 \<le> pc_width pc \<and> 1 \<le> pc_height pc"
proof -
  define st where "st = scan_image img"
  have box: "tight_box img (minX st) (minY st) (maxX st) (maxY st)"
    unfolding st_def by (rule scan_image_tight_box [OF assms])
  with assms(2,3,4) have "minX st \<le> int x0" "int x0 \<le> maxX st" "minY st \<le> int y0" "int y0 \<le> maxY st"
    by (auto simp: tight_box_def)
  then have "maxX st \<noteq> -1" "maxY st \<noteq> -1" "1 \<le> maxX st - minX st + 1" "1 \<le> maxY st - minY st + 1"
    by auto
  with box show ?thesis
    unfolding st_def [symmetric]
    by (simp add: processImage_def st_def [symmetric] Let_def getImageData_def)
qed

theorem C7_tight_bounding_box_witness:
  "\<exists>pc. processImage True (Some example_bitmap) = Inr pc
     \<and> tight_box example_bitmap 1 0 1 0 \<and> pc_maxY pc = 0 \<and> pc_width pc = 1 \<and> pc_height pc = 1"
proof -
  have s: "minX (scan_image example_bitmap) = 1" "minY (scan_image example_bitmap) = 0"
    "maxX (scan_image example_bitmap) = 1" "maxY (scan_image example_bitmap) = 0"
    by code_simp+
  have "wf_image example_bitmap" by (simp add: wf_image_def example_bitmap_def)
  moreover have "\<not> within_tolerance example_bitmap 1 0"
    by (simp add: within_tolerance_def channel_def example_bitmap_def)
  moreover have "(1::nat) < width example_bitmap" "(0::nat) < height example_bitmap" by (simp_all add: example_bitmap_def)
  ultimately show ?thesis using C7_tight_bounding_box [of example_bitmap 1 0] by (auto simp: s)
qed

text \<open>
  The \<open>maxY\<close> returned is \<open>-1\<close> or the index of a row of the bitmap, so the values that
  stage 1 collects are row indices.
\<close>

lemma processImage_maxY_range:
  assumes "processImage croppedCtx (Some img) = Inr pc"
  shows "pc_maxY pc = -1 \<or> (0 \<le> pc_maxY pc \<and> pc_maxY pc < int (height img))"
proof -
  let ?init = "\<lparr>s_data = data img, minX = int (width img), minY = int (height img),
                 maxX = -1, maxY = -1\<rparr>"
  have rgb: "same_rgb (s_data ?init) (data img)" by (simp add: same_rgb_refl)
  from scan_touches [OF rgb, of "width img" "all_pixels (width img) (height img)"]
  have "maxY (scan_image img) = -1
      \<or> (\<exists>y < height img. maxY (scan_image img) = int y)"
    unfolding scan_image_flat by (auto simp: set_all_pixels)
  then have "maxY (scan_image img) = -1
      \<or> (0 \<le> maxY (scan_image img) \<and> maxY (scan_image img) < int (height img))"
    by auto
  with assms show ?thesis
    by (auto simp: processImage_def Let_def split: if_splits)
qed

section \<open>The outline tracer\<close>

lemma scan_run_le: "scan_run imageData y_img x_img \<le> max x_img (width imageData)"
proof (induction imageData y_img x_img rule: scan_run.induct)
  case (1 imageData y_img x_img)
  show ?case
  proof (cases "x_img < width imageData \<and> opaque imageData y_img x_img")
    case True
    with 1 have "scan_run imageData y_img (x_img + 1) \<le> max (x_img + 1) (width imageData)"
      by simp
    with True show ?thesis by (simp add: scan_run_step)
  next
    case False
    then show ?thesis by (simp add: scan_run_stop)
  qed
qed

lemma scan_run_opaque:
  "x \<le> k \<Longrightarrow> k < scan_run img y x \<Longrightarrow> opaque img y k"
proof (induction img y x rule: scan_run.induct)
  case (1 img y x)
  show ?case
  proof (cases "x < width img \<and> opaque img y x")
    case True
    show ?thesis
    proof (cases "k = x")
      case True
      with \<open>x < width img \<and> opaque img y x\<close> show ?thesis by simp
    next
      case False
      with "1.prems" have "x + 1 \<le> k" by simp
      moreover from "1.prems"(2) True have "k < scan_run img y (x + 1)"
        by (simp add: scan_run_step)
      ultimately show ?thesis using "1.IH" True by simp
    qed
  next
    case False
    with "1.prems" show ?thesis by (simp add: scan_run_stop)
  qed
qed

lemma scan_run_end:
  "\<not> (scan_run img y x < width img \<and> opaque img y (scan_run img y x))"
proof (induction img y x rule: scan_run.induct)
  case (1 img y x)
  show ?case
  proof (cases "x < width img \<and> opaque img y x")
    case True
    with "1.IH" show ?thesis by (simp add: scan_run_step)
  next
    case False
    then show ?thesis by (simp add: scan_run_stop)
  qed
qed

lemma trace_row_done: "\<not> x < width img \<Longrightarrow> trace_row img H y x p = p"
  by (subst trace_row.simps) simp

lemma trace_row_skip:
  "x < width img \<Longrightarrow> \<not> opaque img y x \<Longrightarrow> trace_row img H y x p = trace_row img H y (Suc x) p"
  by (subst trace_row.simps) simp

lemma trace_row_run:
  "x < width img \<Longrightarrow> opaque img y x \<Longrightarrow>
   trace_row img H y x p =
     trace_row img H y (scan_run img y x)
       (p @ run_cmds H y (int x) (int (scan_run img y x) - 1))"
  by (subst trace_row.simps) simp

lemma maximal_run_opaque_start: "maximal_run img y a b \<Longrightarrow> opaque img y a \<and> a < width img"
  by (auto simp: maximal_run_def)

lemma trace_row_runs:
  "width img \<le> x \<or> \<not> opaque img y x \<or> x = 0 \<or> \<not> opaque img y (x - 1) \<Longrightarrow>
   \<exists>rs. trace_row img H y x p
           = p @ concat (map (\<lambda>(a, b). run_cmds H y (int a) (int b)) rs)
      \<and> distinct rs
      \<and> set rs = {(a, b). x \<le> a \<and> maximal_run img y a b}
      \<and> (\<forall>k. x \<le> k \<and> k < width img \<and> opaque img y k
              \<longrightarrow> (\<exists>a b. (a, b) \<in> set rs \<and> a \<le> k \<and> k \<le> b))"
proof (induction img H y x p rule: trace_row.induct)
  case (1 img H y x p)
  let ?cmds = "\<lambda>rs. concat (map (\<lambda>(a, b). run_cmds H y (int a) (int b)) rs)"
  consider (finished) "\<not> x < width img"
    | (skip) "x < width img" "\<not> opaque img y x"
    | (run) "x < width img" "opaque img y x" by blast
  then show ?case
  proof cases
    case finished
    have "trace_row img H y x p = p @ ?cmds []" using finished by (simp add: trace_row_done)
    moreover have "{(a, b). x \<le> a \<and> maximal_run img y a b} = {}"
      using finished by (auto simp: maximal_run_def)
    ultimately show ?thesis using finished by (intro exI [of _ "[]"]) simp
  next
    case skip
    from "1.IH"(2) [OF skip] obtain rs where
      eq: "trace_row img H y (x + 1) p = p @ ?cmds rs" and d: "distinct rs"
      and s: "set rs = {(a, b). x + 1 \<le> a \<and> maximal_run img y a b}"
      and c: "\<forall>k. x + 1 \<le> k \<and> k < width img \<and> opaque img y k
              \<longrightarrow> (\<exists>a b. (a, b) \<in> set rs \<and> a \<le> k \<and> k \<le> b)"
      using skip(2) by auto
    have "trace_row img H y x p = p @ ?cmds rs" using skip eq by (simp add: trace_row_skip)
    moreover have "set rs = {(a, b). x \<le> a \<and> maximal_run img y a b}"
    proof -
      have "a \<noteq> x" if "maximal_run img y a b" for a b
        using maximal_run_opaque_start [OF that] skip(2) by auto
      then have "x + 1 \<le> a" if "maximal_run img y a b" "x \<le> a" for a b
        using that by (metis Suc_eq_plus1 Suc_leI le_neq_implies_less)
      then show ?thesis unfolding s by auto
    qed
    moreover have "\<exists>a b. (a, b) \<in> set rs \<and> a \<le> k \<and> k \<le> b"
      if "x \<le> k" "k < width img" "opaque img y k" for k
    proof -
      from that skip(2) have "k \<noteq> x" by auto
      with that(1) have "x + 1 \<le> k" by simp
      with c that show ?thesis by blast
    qed
    ultimately show ?thesis using d by (intro exI [of _ rs]) blast
  next
    case run
    define x' where "x' = scan_run img y x"
    have gt: "x < x'" unfolding x'_def using run by (rule scan_run_gt)
    have le: "x' \<le> width img"
      using scan_run_le [of img y x] run(1) by (simp add: x'_def)
    have inside: "opaque img y k" if "x \<le> k" "k < x'" for k
      using that unfolding x'_def by (rule scan_run_opaque)
    have stop: "width img \<le> x' \<or> \<not> opaque img y x'"
      using scan_run_end [of img y x] by (auto simp: x'_def)
    have left: "x = 0 \<or> \<not> opaque img y (x - 1)" using "1.prems" run by auto
    have mr: "maximal_run img y x (x' - 1)"
      using gt le inside stop left by (auto simp: maximal_run_def)
    from "1.IH"(1) [OF run, folded x'_def] stop obtain rs where
      eq: "trace_row img H y x' (p @ run_cmds H y (int x) (int x' - 1))
            = (p @ run_cmds H y (int x) (int x' - 1)) @ ?cmds rs"
      and d: "distinct rs"
      and s: "set rs = {(a, b). x' \<le> a \<and> maximal_run img y a b}"
      and c: "\<forall>k. x' \<le> k \<and> k < width img \<and> opaque img y k
              \<longrightarrow> (\<exists>a b. (a, b) \<in> set rs \<and> a \<le> k \<and> k \<le> b)"
      by blast
    have i: "int x' - 1 = int (x' - 1)" using gt by (simp add: of_nat_diff)
    have 1: "trace_row img H y x p = p @ ?cmds ((x, x' - 1) # rs)"
      using trace_row_run [OF run, of H p, folded x'_def] eq by (simp add: i)
    have 2: "distinct ((x, x' - 1) # rs)" using d s gt by auto
    have uniq: "b = x' - 1" if "maximal_run img y x b" for b
    proof (rule ccontr)
      assume "b \<noteq> x' - 1"
      then consider "b + 1 < x'" | "x' \<le> b" by linarith
      then show False
      proof cases
        case 1
        then have "opaque img y (b + 1)" "b + 1 < width img" using inside [of "b + 1"] that le
          by (auto simp: maximal_run_def)
        with that show False by (auto simp: maximal_run_def)
      next
        case 2
        with that gt have "opaque img y x'" "x' < width img" by (auto simp: maximal_run_def)
        with stop show False by auto
      qed
    qed
    have later: "x' \<le> a" if "maximal_run img y a b" "x < a" for a b
    proof (rule ccontr)
      assume "\<not> x' \<le> a"
      with that(2) have "opaque img y (a - 1)" "a \<noteq> 0" using inside [of "a - 1"] by auto
      with that(1) show False by (auto simp: maximal_run_def)
    qed
    have 3: "set ((x, x' - 1) # rs) = {(a, b). x \<le> a \<and> maximal_run img y a b}"
    proof (rule set_eqI)
      fix ab :: "nat \<times> nat"
      obtain a b where ab: "ab = (a, b)" by (cases ab)
      show "ab \<in> set ((x, x' - 1) # rs) \<longleftrightarrow> ab \<in> {(a, b). x \<le> a \<and> maximal_run img y a b}"
      proof
        assume "ab \<in> set ((x, x' - 1) # rs)"
        then show "ab \<in> {(a, b). x \<le> a \<and> maximal_run img y a b}"
          using mr s gt by (auto simp: ab)
      next
        assume "ab \<in> {(a, b). x \<le> a \<and> maximal_run img y a b}"
        then have xa: "x \<le> a" and m: "maximal_run img y a b" by (simp_all add: ab)
        show "ab \<in> set ((x, x' - 1) # rs)"
        proof (cases "a = x")
          case True
          with m uniq show ?thesis by (simp add: ab)
        next
          case False
          with xa have "x < a" by simp
          from later [OF m this] m s show ?thesis by (simp add: ab)
        qed
      qed
    qed
    have 4: "\<exists>a b. (a, b) \<in> set ((x, x' - 1) # rs) \<and> a \<le> k \<and> k \<le> b"
      if "x \<le> k" "k < width img" "opaque img y k" for k
    proof (cases "k < x'")
      case True
      with that(1) have "x \<le> k \<and> k \<le> x' - 1" by simp
      then show ?thesis by auto
    next
      case False
      with c that obtain a b where "(a, b) \<in> set rs" "a \<le> k" "k \<le> b" by (meson not_le)
      then show ?thesis by auto
    qed
    from 1 2 3 4 show ?thesis by (intro exI [of _ "(x, x' - 1) # rs"]) blast
  qed
qed

lemma trace_rows_runs:
  "\<exists>rs. foldl (\<lambda>p y. trace_row img H y 0 p) [] [0..<n]
           = concat (map (\<lambda>(y, a, b). run_cmds H y (int a) (int b)) rs)
      \<and> distinct rs
      \<and> set rs = {(y, a, b). y < n \<and> maximal_run img y a b}
      \<and> (\<forall>y k. y < n \<and> k < width img \<and> opaque img y k
              \<longrightarrow> (\<exists>a b. (y, a, b) \<in> set rs \<and> a \<le> k \<and> k \<le> b))"
proof (induction n)
  case 0
  show ?case by (intro exI [of _ "[]"]) simp
next
  case (Suc n)
  let ?cmds = "\<lambda>rs. concat (map (\<lambda>(y, a, b). run_cmds H y (int a) (int b)) rs)"
  from Suc obtain rs where
    eq: "foldl (\<lambda>p y. trace_row img H y 0 p) [] [0..<n] = ?cmds rs"
    and d: "distinct rs"
    and s: "set rs = {(y, a, b). y < n \<and> maximal_run img y a b}"
    and c: "\<forall>y k. y < n \<and> k < width img \<and> opaque img y k
              \<longrightarrow> (\<exists>a b. (y, a, b) \<in> set rs \<and> a \<le> k \<and> k \<le> b)"
    by blast
  from trace_row_runs [of img 0 n H "?cmds rs"] obtain rn where
    eqn: "trace_row img H n 0 (?cmds rs)
            = ?cmds rs @ concat (map (\<lambda>(a, b). run_cmds H n (int a) (int b)) rn)"
    and dn: "distinct rn"
    and sn: "set rn = {(a, b). maximal_run img n a b}"
    and cn: "\<forall>k. k < width img \<and> opaque img n k
              \<longrightarrow> (\<exists>a b. (a, b) \<in> set rn \<and> a \<le> k \<and> k \<le> b)"
    by auto
  define rs' where "rs' = rs @ map (Pair n) rn"
  have m: "(\<lambda>(y, a, b). run_cmds H y (int a) (int b)) \<circ> Pair n
         = (\<lambda>(a, b). run_cmds H n (int a) (int b))"
    by (simp add: fun_eq_iff)
  have 1: "foldl (\<lambda>p y. trace_row img H y 0 p) [] [0..<Suc n] = ?cmds rs'"
    by (simp add: eq eqn rs'_def m)
  have 2: "distinct rs'"
    using d dn s by (auto simp: rs'_def distinct_map inj_on_def)
  have 3: "set rs' = {(y, a, b). y < Suc n \<and> maximal_run img y a b}"
    unfolding rs'_def using s sn by (auto simp: less_Suc_eq)
  have 4: "\<exists>a b. (y, a, b) \<in> set rs' \<and> a \<le> k \<and> k \<le> b"
    if "y < Suc n" "k < width img" "opaque img y k" for y k
  proof (cases "y = n")
    case True
    with cn that obtain a b where "(a, b) \<in> set rn" "a \<le> k" "k \<le> b" by blast
    then have "(y, a, b) \<in> set rs'" by (auto simp: rs'_def True)
    with \<open>a \<le> k\<close> \<open>k \<le> b\<close> show ?thesis by blast
  next
    case False
    with that(1) have "y < n" by simp
    with c that obtain a b where "(y, a, b) \<in> set rs" "a \<le> k" "k \<le> b" by blast
    then show ?thesis by (auto simp: rs'_def)
  qed
  from 1 2 3 4 show ?case by (intro exI [of _ rs']) blast
qed

lemma trace_image_runs:
  "\<exists>rs. trace_image img (int (height img))
           = concat (map (\<lambda>(y, a, b). run_rectangle (height img) y a b) rs)
      \<and> distinct rs
      \<and> set rs = {(y, a, b). y < height img \<and> maximal_run img y a b}
      \<and> (\<forall>y k. y < height img \<and> k < width img \<and> opaque img y k
              \<longrightarrow> (\<exists>a b. (y, a, b) \<in> set rs \<and> a \<le> k \<and> k \<le> b))"
proof -
  from trace_rows_runs [of img "int (height img)" "height img"] obtain rs where
    eq: "trace_image img (int (height img))
           = concat (map (\<lambda>(y, a, b). run_cmds (int (height img)) y (int a) (int b)) rs)"
    and rest: "distinct rs" "set rs = {(y, a, b). y < height img \<and> maximal_run img y a b}"
      "\<forall>y k. y < height img \<and> k < width img \<and> opaque img y k
              \<longrightarrow> (\<exists>a b. (y, a, b) \<in> set rs \<and> a \<le> k \<and> k \<le> b)"
    unfolding trace_image_def by blast
  have "run_cmds (int (height img)) y (int a) (int b) = run_rectangle (height img) y a b"
    for y a b
    by (simp add: run_cmds_def run_rectangle_def Let_def)
  with eq have "trace_image img (int (height img))
           = concat (map (\<lambda>(y, a, b). run_rectangle (height img) y a b) rs)"
    by simp
  with rest show ?thesis by blast
qed

lemma path_rects_Nil: "path_rects [] = Some []"
  by (simp add: path_rects.simps)

lemma path_rects_run_rectangle:
  "path_rects (run_rectangle H r x0 x1 @ rest)
     = map_option ((#) (run_box H (r, x0, x1))) (path_rects rest)"
  by (subst path_rects.simps) (simp add: run_rectangle_def rect_of_def run_box_def)

lemma path_rects_runs:
  "path_rects (concat (map (\<lambda>(y, a, b). run_rectangle H y a b) rs))
     = Some (map (run_box H) rs)"
proof (induction rs)
  case Nil
  show ?case by (simp add: path_rects_Nil)
next
  case (Cons run rs)
  obtain y a b where run: "run = (y, a, b)" by (cases run)
  show ?case by (simp add: run path_rects_run_rectangle Cons.IH)
qed

lemma covers_run_box:
  "covers (run_box H (y, a, b)) H x r \<longleftrightarrow> r = y \<and> a \<le> x \<and> x \<le> b"
proof -
  have "rat_of_nat a \<le> of_nat x \<longleftrightarrow> a \<le> x" by simp
  moreover have "rat_of_nat x + 1 \<le> of_nat b + 1 \<longleftrightarrow> x \<le> b" by simp
  moreover have "rat_of_int (int H - 1 - int y) \<le> of_int (int H - 1 - int r) \<longleftrightarrow> r \<le> y"
    unfolding of_int_le_iff by auto
  moreover have "rat_of_int (int H - int r) \<le> of_int (int H - int y) \<longleftrightarrow> y \<le> r"
    unfolding of_int_le_iff by auto
  ultimately show ?thesis unfolding covers_def run_box_def prod.case by auto
qed

text \<open>
  The tracer is called by stage 2 with the bitmap of a processed character and that
  character's height, which is the height of the bitmap.
\<close>

lemma processImage_height:
  "processImage croppedCtx ctx = Inr pc \<Longrightarrow> pc_height pc = int (height (pc_imageData pc))"
  by (auto simp: processImage_def Let_def getImageData_def split: option.splits if_splits)

text \<open>
  C5. For every bitmap of height \<open>H\<close>, traced with \<open>charPixelHeight = H\<close>, the outline
  is made of one closed rectangle for each maximal run of opaque pixels (alpha above
  128) of each row and of nothing else, the rectangle of the run from \<open>x0\<close> to \<open>x1\<close>
  of row \<open>r\<close> having the corners \<open>(x0, H - 1 - r)\<close>, \<open>(x1 + 1, H - 1 - r)\<close>,
  \<open>(x1 + 1, H - r)\<close>, \<open>(x0, H - r)\<close>: runs of different rows are never merged.
\<close>

theorem C5_one_rectangle_per_run:
  assumes "imageDataToOpentypePath ctx img charPixelHeight = Inr p"
    and "charPixelHeight = int (height img)"
  shows "\<exists>rs. distinct rs
      \<and> set rs = {(r, x0, x1). r < height img \<and> maximal_run img r x0 x1}
      \<and> p = concat (map (\<lambda>(r, x0, x1). run_rectangle (height img) r x0 x1) rs)"
proof -
  from assms have "p = trace_image img (int (height img))"
    by (simp add: imageDataToOpentypePath_def split: if_splits)
  with trace_image_runs [of img] show ?thesis by auto
qed

theorem C5_one_rectangle_per_run_witness:
  "\<exists>rs. distinct rs
      \<and> set rs = {(r, x0, x1). r < height example_glyph \<and> maximal_run example_glyph r x0 x1}
      \<and> [MoveTo 0 1, LineTo 1 1, LineTo 1 2, LineTo 0 2, ClosePath,
          MoveTo 2 1, LineTo 3 1, LineTo 3 2, LineTo 2 2, ClosePath,
          MoveTo 1 0, LineTo 3 0, LineTo 3 1, LineTo 1 1, ClosePath]
         = concat (map (\<lambda>(r, x0, x1). run_rectangle (height example_glyph) r x0 x1) rs)"
proof -
  have "trace_image example_glyph 2 =
     [MoveTo 0 1, LineTo 1 1, LineTo 1 2, LineTo 0 2, ClosePath,
      MoveTo 2 1, LineTo 3 1, LineTo 3 2, LineTo 2 2, ClosePath,
      MoveTo 1 0, LineTo 3 0, LineTo 3 1, LineTo 1 1, ClosePath]"
    by code_simp
  then have "imageDataToOpentypePath True example_glyph 2 =
     Inr [MoveTo 0 1, LineTo 1 1, LineTo 1 2, LineTo 0 2, ClosePath,
          MoveTo 2 1, LineTo 3 1, LineTo 3 2, LineTo 2 2, ClosePath,
          MoveTo 1 0, LineTo 3 0, LineTo 3 1, LineTo 1 1, ClosePath]"
    by (simp add: imageDataToOpentypePath_def)
  moreover have "2 = int (height example_glyph)" by (simp add: example_glyph_def)
  ultimately show ?thesis by (rule C5_one_rectangle_per_run)
qed

text \<open>
  C4. For every bitmap, traced with its own height, the outline is a sequence of
  rectangles, and rasterizing it at one font unit per pixel covers a pixel if and only
  if the pixel is in the bitmap and its alpha exceeds 128.
\<close>

theorem C4_rasterize_outline:
  assumes "imageDataToOpentypePath ctx img charPixelHeight = Inr p"
    and "charPixelHeight = int (height img)"
  shows "path_rects p \<noteq> None
    \<and> (\<forall>x r. rasterize p (height img) x r
              \<longleftrightarrow> x < width img \<and> r < height img \<and> opaque img r x)"
proof -
  from assms have p: "p = trace_image img (int (height img))"
    by (simp add: imageDataToOpentypePath_def split: if_splits)
  from trace_image_runs [of img] obtain rs where
    eq: "p = concat (map (\<lambda>(y, a, b). run_rectangle (height img) y a b) rs)"
    and s: "set rs = {(y, a, b). y < height img \<and> maximal_run img y a b}"
    and c: "\<forall>y k. y < height img \<and> k < width img \<and> opaque img y k
              \<longrightarrow> (\<exists>a b. (y, a, b) \<in> set rs \<and> a \<le> k \<and> k \<le> b)"
    unfolding p by blast
  have rects: "path_rects p = Some (map (run_box (height img)) rs)"
    unfolding eq by (rule path_rects_runs)
  have "rasterize p (height img) x r \<longleftrightarrow> x < width img \<and> r < height img \<and> opaque img r x"
    for x r
  proof
    assume "rasterize p (height img) x r"
    then obtain run where run: "run \<in> set rs" and cov: "covers (run_box (height img) run) (height img) x r"
      by (auto simp: rasterize_def rects)
    obtain y a b where yab: "run = (y, a, b)" by (cases run)
    from cov have "r = y" "a \<le> x" "x \<le> b" by (simp_all add: yab covers_run_box)
    moreover from run s have "y < height img" "maximal_run img y a b" by (auto simp: yab)
    ultimately show "x < width img \<and> r < height img \<and> opaque img r x"
      by (auto simp: maximal_run_def)
  next
    assume "x < width img \<and> r < height img \<and> opaque img r x"
    with c obtain a b where "(r, a, b) \<in> set rs" "a \<le> x" "x \<le> b" by blast
    then have "\<exists>run \<in> set rs. covers (run_box (height img) run) (height img) x r"
      by (intro bexI [of _ "(r, a, b)"]) (simp_all add: covers_run_box)
    then show "rasterize p (height img) x r" by (simp add: rasterize_def rects)
  qed
  with rects show ?thesis by simp
qed

theorem C4_rasterize_outline_witness:
  "rasterize
     [MoveTo 0 1, LineTo 1 1, LineTo 1 2, LineTo 0 2, ClosePath,
      MoveTo 2 1, LineTo 3 1, LineTo 3 2, LineTo 2 2, ClosePath,
      MoveTo 1 0, LineTo 3 0, LineTo 3 1, LineTo 1 1, ClosePath] 2 2 0
   \<and> \<not> rasterize
     [MoveTo 0 1, LineTo 1 1, LineTo 1 2, LineTo 0 2, ClosePath,
      MoveTo 2 1, LineTo 3 1, LineTo 3 2, LineTo 2 2, ClosePath,
      MoveTo 1 0, LineTo 3 0, LineTo 3 1, LineTo 1 1, ClosePath] 2 0 1"
proof -
  let ?p = "[MoveTo 0 1, LineTo 1 1, LineTo 1 2, LineTo 0 2, ClosePath,
      MoveTo 2 1, LineTo 3 1, LineTo 3 2, LineTo 2 2, ClosePath,
      MoveTo 1 0, LineTo 3 0, LineTo 3 1, LineTo 1 1, ClosePath]"
  have "trace_image example_glyph 2 = ?p" by code_simp
  then have h: "imageDataToOpentypePath True example_glyph 2 = Inr ?p"
    by (simp add: imageDataToOpentypePath_def)
  have e: "2 = int (height example_glyph)" by (simp add: example_glyph_def)
  have d: "width example_glyph = 3" "height example_glyph = 2"
    by (simp_all add: example_glyph_def)
  have o: "opaque example_glyph 0 2" "\<not> opaque example_glyph 1 0" by code_simp+
  from C4_rasterize_outline [OF h e] have "rasterize ?p 2 x r \<longleftrightarrow> x < 3 \<and> r < 2 \<and> opaque example_glyph r x"
    for x r unfolding d by blast
  from this [of 2 0] this [of 0 1] o show ?thesis by simp
qed

section \<open>Advance width\<close>

lemma glyph_advanceWidth_nonzero_width:
  "fa_width glyph \<noteq> 0 \<Longrightarrow>
   glyph_advanceWidth unitsPerEm glyph
     = of_int (max 1 (Math_round (fa_width glyph * fa_scale glyph)))"
  by (simp add: glyph_advanceWidth_def)

lemma glyph_advanceWidth_ge_1: "1 \<le> glyph_advanceWidth unitsPerEm glyph"
  by (simp add: glyph_advanceWidth_def)

text \<open>
  C3. The specification: for every nonnegative base advance width and every positive
  scale the advance width written is \<open>max(1, round(width * scale))\<close>. The code at
  width 0, scale 1 and 256 units per em: the width 0 is falsy,
  \<open>round(unitsPerEm / 2) = 128\<close> takes its place, and the glyph \<open>A\<close> is written with
  advance width 128, where the formula gives \<open>max(1, round(0 * 1)) = 1\<close>. For every
  other width the formula holds, and the result is always at least 1 (the two lemmas
  above).
\<close>

theorem C3_advance_width_of_zero_width:
  "map ot_advanceWidth
     (assembleTtfFont
        [\<lparr>fa_char = ''A'', fa_path = [], fa_width = 0, fa_height = 1,
          fa_xOffset = 0, fa_yOffset = 0, fa_scale = 1\<rparr>] 256) = [128, 85, 128]
   \<and> rat_of_int (max 1 (Math_round (0 * 1))) = 1"
  by code_simp

section \<open>Order of scaling and translation\<close>




text \<open>
  It fails as well where rounding hides the order. The rectangle of the pixel in
  column 3 of a one-row bitmap, scaled by \<open>1 + 2\<^sup>-\<^sup>5\<^sup>2\<close> (the double next above 1)
  and moved by (1, 0): \<open>3 * scale\<close> rounds to \<open>3 + 2\<^sup>-\<^sup>5\<^sup>0\<close> and \<open>5 * scale\<close> to
  \<open>5 + 2\<^sup>-\<^sup>5\<^sup>0\<close>, and both orders give the same doubles.
\<close>

lemma rounding_hides_the_order:
  "finalPath \<lparr>fa_char = ''A'',
       fa_path = [MoveTo 3 0, LineTo 4 0, LineTo 4 1, LineTo 3 1, ClosePath],
       fa_width = 1, fa_height = 1, fa_xOffset = 1, fa_yOffset = 0,
       fa_scale = 1 + 1 / 2 ^ 52\<rparr>
   = translate_then_scale \<lparr>fa_char = ''A'',
       fa_path = [MoveTo 3 0, LineTo 4 0, LineTo 4 1, LineTo 3 1, ClosePath],
       fa_width = 1, fa_height = 1, fa_xOffset = 1, fa_yOffset = 0,
       fa_scale = 1 + 1 / 2 ^ 52\<rparr>"
  by code_simp



end
